theory Spec2Isabelle
  imports Main "HOL-Library.AList"
begin

section \<open>Data model\<close>

text \<open>
  The exceptions the routing core can raise: an out-of-range array index, a missing
  dictionary key, and the \<^verbatim>\<open>ValueError\<close> of \<^verbatim>\<open>min\<close> on an empty dictionary, of
  \<^verbatim>\<open>random.sample\<close> on a population that is too small, of \<^verbatim>\<open>list.remove\<close> on an absent
  element and of \<^verbatim>\<open>np.full\<close> on a negative dimension.
\<close>

datatype error = IndexError | KeyError | ValueError

text \<open>
  A dictionary key as Python compares it. Gate identifiers are the numbers of the
  "Gate number" column; grid coordinates are triples of integers. A number never equals a
  triple, which decides the test \<^verbatim>\<open>node in c_board.needs_connections\<close> of
  \<^verbatim>\<open>node_neighbors\<close>.
\<close>

datatype key = GateNo int | Coord int int int

type_synonym node = "int \<times> int \<times> int"

text \<open>
  The board is a three-dimensional numpy array of two-character strings
  (\<^verbatim>\<open>np.full(dimensions, '__')\<close> has dtype \<^verbatim>\<open><U2\<close>). Arrays live in a store and are
  named by their address: \<^verbatim>\<open>set_node\<close> writes into the array in place, while
  \<^verbatim>\<open>np.where\<close> allocates a new one.
\<close>

type_synonym grid = "string list list list"

type_synonym heap = "grid list"

record circuit_board =
  dimensions :: "int \<times> int \<times> int"
  gates :: "(key \<times> node) list"
  connections :: "(key \<times> key) list"
  board :: nat
  needs_connections :: "(key \<times> int) list"
  neighbor_of :: "(node \<times> key list) list"
  free_connectors :: "node set"

definition bind_err :: "error + 'a \<Rightarrow> ('a \<Rightarrow> error + 'b) \<Rightarrow> error + 'b" where
  "bind_err r f = (case r of Inl e \<Rightarrow> Inl e | Inr v \<Rightarrow> f v)"

text \<open>Indexing one axis of an array: a negative index counts from the end.\<close>

definition np_pos :: "nat \<Rightarrow> int \<Rightarrow> error + nat" where
  "np_pos n i =
     (if 0 \<le> i \<and> i < int n then Inr (nat i)
      else if - int n \<le> i \<and> i < 0 then Inr (nat (int n + i))
      else Inl IndexError)"

definition np_index :: "'a list \<Rightarrow> int \<Rightarrow> error + 'a" where
  "np_index xs i = bind_err (np_pos (length xs) i) (\<lambda>k. Inr (xs ! k))"

text \<open>\<^verbatim>\<open>board[a][b][c]\<close>\<close>

definition cell :: "grid \<Rightarrow> node \<Rightarrow> error + string" where
  "cell g n = (case n of (a, b, c) \<Rightarrow>
     bind_err (np_index g a) (\<lambda>plane.
     bind_err (np_index plane b) (\<lambda>row. np_index row c)))"

text \<open>\<^verbatim>\<open>key in d\<close> and \<^verbatim>\<open>d[key]\<close> on a dictionary kept in insertion order.\<close>

definition has_key :: "('k \<times> 'v) list \<Rightarrow> 'k \<Rightarrow> bool" where
  "has_key d k = (map_of d k \<noteq> None)"

definition lookup :: "('k \<times> 'v) list \<Rightarrow> 'k \<Rightarrow> error + 'v" where
  "lookup d k = (case map_of d k of None \<Rightarrow> Inl KeyError | Some v \<Rightarrow> Inr v)"

definition key_of_node :: "node \<Rightarrow> key" where
  "key_of_node n = (case n of (z, x, y) \<Rightarrow> Coord z x y)"

section \<open>a\_star.py\<close>

definition manhattan :: "node \<Rightarrow> node \<Rightarrow> int" where
  "manhattan s e = (case s of (s0, s1, s2) \<Rightarrow> case e of (e0, e1, e2) \<Rightarrow>
     \<bar>e0 - s0\<bar> + \<bar>e1 - s1\<bar> + \<bar>e2 - s2\<bar>)"

text \<open>
  \<^verbatim>\<open>check_free_connector\<close>: the first gate of the connector with no pending connection
  answers True; both dictionary reads can raise.
\<close>

fun any_gate_free :: "(key \<times> int) list \<Rightarrow> key list \<Rightarrow> error + bool" where
  "any_gate_free nc [] = Inr False"
| "any_gate_free nc (gate # rest) =
     bind_err (lookup nc gate) (\<lambda>c. if c = 0 then Inr True else any_gate_free nc rest)"

definition check_free_connector :: "circuit_board \<Rightarrow> node \<Rightarrow> error + bool" where
  "check_free_connector c_board connector_node =
     bind_err (lookup (neighbor_of c_board) connector_node)
       (any_gate_free (needs_connections c_board))"

text \<open>
  One of the six direction tests of \<^verbatim>\<open>node_neighbors\<close>: when the guard on the
  coordinate holds, the cell is read (which can raise) and appended when it is
  \<^verbatim>\<open>'__'\<close>.
\<close>

definition probe :: "grid \<Rightarrow> bool \<Rightarrow> node \<Rightarrow> node list \<Rightarrow> error + node list" where
  "probe g guard target neighbors =
     (if guard
      then bind_err (cell g target)
             (\<lambda>v. Inr (if v = ''__'' then neighbors @ [target] else neighbors))
      else Inr neighbors)"

definition six_directions :: "grid \<Rightarrow> int \<times> int \<times> int \<Rightarrow> node \<Rightarrow> error + node list" where
  "six_directions g dims n = (case dims of (bz, bx, by) \<Rightarrow> case n of (nz, nx, ny) \<Rightarrow>
     bind_err (probe g (nz < bz - 1) (nz + 1, nx, ny) []) (\<lambda>n1.
     bind_err (probe g (nz > 0 \<and> nz < bz) (nz - 1, nx, ny) n1) (\<lambda>n2.
     bind_err (probe g (nx < bx - 1) (nz, nx + 1, ny) n2) (\<lambda>n3.
     bind_err (probe g (nx > 0 \<and> nx < bx) (nz, nx - 1, ny) n3) (\<lambda>n4.
     bind_err (probe g (ny < by - 1) (nz, nx, ny + 1) n4) (\<lambda>n5.
     probe g (ny > 0 \<and> ny < by) (nz, nx, ny - 1) n5))))))"

text \<open>
  The loop \<^verbatim>\<open>for node in neighbors: ... neighbors.remove(node)\<close>: Python walks the list
  by position, so after a removal the element that slides into the current position is
  passed over.
\<close>

function drop_contended :: "circuit_board \<Rightarrow> nat \<Rightarrow> node list \<Rightarrow> error + node list" where
  "drop_contended c_board i neighbors =
     (if i < length neighbors
      then (let node = neighbors ! i in
            if has_key (needs_connections c_board) (key_of_node node)
            then bind_err (check_free_connector c_board node) (\<lambda>free.
                   if \<not> free then drop_contended c_board (Suc i) (remove1 node neighbors)
                   else drop_contended c_board (Suc i) neighbors)
            else drop_contended c_board (Suc i) neighbors)
      else Inr neighbors)"
  by pat_completeness auto
termination
  by (relation "measure (\<lambda>(c_board, i, neighbors). length neighbors - i)")
     (auto simp: length_remove1)

declare drop_contended.simps [simp del]

definition node_neighbors :: "heap \<Rightarrow> circuit_board \<Rightarrow> node \<Rightarrow> error + node list" where
  "node_neighbors h c_board n =
     bind_err (six_directions (h ! board c_board) (dimensions c_board) n)
       (drop_contended c_board 0)"

subsection \<open>The search\<close>

record search_state =
  closed_set :: "node set"
  open_set :: "node set"
  came_from :: "(node \<times> node) list"
  g_score :: "(node \<times> int) list"
  f_score :: "(node \<times> int) list"

text \<open>The value \<^verbatim>\<open>search\<close> returns: \<^verbatim>\<open>False\<close> or a list of nodes.\<close>

datatype search_result = NoPath | Path "node list"

text \<open>
  \<^verbatim>\<open>reconstruct_path\<close> follows the back-pointers for as long as there is one; on a
  cyclic dictionary it does not return, which is the value \<open>None\<close>.
\<close>

partial_function (option) reconstruct_loop ::
  "(node \<times> node) list \<Rightarrow> node \<Rightarrow> node list \<Rightarrow> node list option" where
  "reconstruct_loop cf current total_path =
     (case map_of cf current of
        None \<Rightarrow> Some total_path
      | Some previous \<Rightarrow> reconstruct_loop cf previous (total_path @ [previous]))"

declare reconstruct_loop.simps [code]

definition reconstruct_path :: "(node \<times> node) list \<Rightarrow> node \<Rightarrow> node list option" where
  "reconstruct_path cf current = reconstruct_loop cf current [current]"

text \<open>
  \<^verbatim>\<open>min(fscores, key=fscores.get)\<close>: the first key, in insertion order, whose value is
  minimal; \<^verbatim>\<open>ValueError\<close> on an empty dictionary.
\<close>

definition py_min_key :: "(node \<times> int) list \<Rightarrow> error + node" where
  "py_min_key kvs =
     (case kvs of
        [] \<Rightarrow> Inl ValueError
      | kv # rest \<Rightarrow>
          Inr (fst (fold (\<lambda>kv best. if snd kv < snd best then kv else best) rest kv)))"

definition select_current :: "search_state \<Rightarrow> error + node" where
  "select_current st =
     py_min_key (filter (\<lambda>kv. fst kv \<in> open_set st) (f_score st))"

text \<open>The body of \<^verbatim>\<open>for neighbor in node_neighbors(c_board, current)\<close>.\<close>

definition relax :: "node \<Rightarrow> node \<Rightarrow> node \<Rightarrow> search_state \<Rightarrow> error + search_state" where
  "relax goal current neighbor st =
     (if neighbor \<in> closed_set st then Inr st
      else
        (let st1 = st\<lparr>open_set := insert neighbor (open_set st)\<rparr> in
         bind_err (lookup (g_score st1) current) (\<lambda>g_current.
           (let tent_gscore = g_current + manhattan current neighbor in
            if tent_gscore \<ge> (case map_of (g_score st1) neighbor of
                                 None \<Rightarrow> 1000 | Some g \<Rightarrow> g)
            then Inr st1
            else Inr (st1\<lparr>came_from := AList.update neighbor current (came_from st1),
                          g_score := AList.update neighbor tent_gscore (g_score st1),
                          f_score := AList.update neighbor
                                       (tent_gscore + manhattan neighbor goal)
                                       (f_score st1)\<rparr>)))))"

fun relax_all :: "node \<Rightarrow> node \<Rightarrow> node list \<Rightarrow> search_state \<Rightarrow> error + search_state" where
  "relax_all goal current [] st = Inr st"
| "relax_all goal current (neighbor # rest) st =
     bind_err (relax goal current neighbor st) (relax_all goal current rest)"

definition expand ::
  "heap \<Rightarrow> circuit_board \<Rightarrow> node \<Rightarrow> node \<Rightarrow> search_state \<Rightarrow> error + search_state" where
  "expand h c_board goal current st =
     bind_err (node_neighbors h c_board current) (\<lambda>neighbors.
       relax_all goal current neighbors
         (st\<lparr>open_set := open_set st - {current},
             closed_set := insert current (closed_set st)\<rparr>))"

partial_function (option) search_loop ::
  "heap \<Rightarrow> circuit_board \<Rightarrow> node \<Rightarrow> search_state \<Rightarrow> (error + search_result) option" where
  "search_loop h c_board goal st =
     (if open_set st = {} then Some (Inr NoPath)
      else
        (case select_current st of
           Inl e \<Rightarrow> Some (Inl e)
         | Inr current \<Rightarrow>
             if current = goal
             then map_option (\<lambda>p. Inr (Path p)) (reconstruct_path (came_from st) current)
             else
               (case expand h c_board goal current st of
                  Inl e \<Rightarrow> Some (Inl e)
                | Inr st' \<Rightarrow> search_loop h c_board goal st')))"

declare search_loop.simps [code]

definition initial_state :: "node \<Rightarrow> node \<Rightarrow> search_state" where
  "initial_state start goal =
     \<lparr>closed_set = {}, open_set = {start}, came_from = [],
      g_score = [(start, 0)], f_score = [(start, manhattan start goal)]\<rparr>"

definition search ::
  "node \<Rightarrow> node \<Rightarrow> heap \<Rightarrow> circuit_board \<Rightarrow> (error + search_result) option" where
  "search start goal h c_board = search_loop h c_board goal (initial_state start goal)"

section \<open>circuit\_board.py\<close>

text \<open>
  A value that may not be returned at all (\<open>None\<close>: the call does not terminate), or is
  an exception, or is a result.
\<close>

definition bind_res ::
  "(error + 'a) option \<Rightarrow> ('a \<Rightarrow> (error + 'b) option) \<Rightarrow> (error + 'b) option" where
  "bind_res m f = (case m of None \<Rightarrow> None | Some (Inl e) \<Rightarrow> Some (Inl e) | Some (Inr v) \<Rightarrow> f v)"

text \<open>\<^verbatim>\<open>xs[i]\<close> for an index that is never negative.\<close>

definition py_nth :: "'a list \<Rightarrow> nat \<Rightarrow> error + 'a" where
  "py_nth xs i = (if i < length xs then Inr (xs ! i) else Inl IndexError)"

text \<open>\<^verbatim>\<open>d[k] += delta\<close>\<close>

definition dict_add :: "('k \<times> int) list \<Rightarrow> 'k \<Rightarrow> int \<Rightarrow> error + ('k \<times> int) list" where
  "dict_add d k delta = bind_err (lookup d k) (\<lambda>v. Inr (AList.update k (v + delta) d))"

text \<open>\<^verbatim>\<open>np.full(dimensions, '__')\<close>\<close>

definition np_full :: "int \<times> int \<times> int \<Rightarrow> error + grid" where
  "np_full dims = (case dims of (bz, bx, by) \<Rightarrow>
     if bz < 0 \<or> bx < 0 \<or> by < 0 then Inl ValueError
     else Inr (replicate (nat bz) (replicate (nat bx) (replicate (nat by) ''__''))))"

text \<open>
  \<^verbatim>\<open>board[loc[0]][loc[1]][loc[2]] = val\<close> on an array of two-character strings: a longer
  value is cut to its first two characters.
\<close>

definition set_cell :: "grid \<Rightarrow> node \<Rightarrow> string \<Rightarrow> error + grid" where
  "set_cell g loc val = (case loc of (a, b, c) \<Rightarrow>
     bind_err (np_pos (length g) a) (\<lambda>i.
     bind_err (np_pos (length (g ! i)) b) (\<lambda>j.
     bind_err (np_pos (length (g ! i ! j)) c) (\<lambda>k.
       Inr (g[i := (g ! i)[j := (g ! i ! j)[k := take 2 val]]])))))"

definition set_node :: "heap \<Rightarrow> circuit_board \<Rightarrow> node \<Rightarrow> string \<Rightarrow> error + heap" where
  "set_node h self loc val =
     bind_err (set_cell (h ! board self) loc val) (\<lambda>g. Inr (h[board self := g]))"

text \<open>\<^verbatim>\<open>for node in path: self.set_node(node, name)\<close>\<close>

fun paint :: "heap \<Rightarrow> circuit_board \<Rightarrow> node list \<Rightarrow> string \<Rightarrow> error + heap" where
  "paint h self [] name = Inr h"
| "paint h self (node # rest) name =
     bind_err (set_node h self node name) (\<lambda>h'. paint h' self rest name)"

definition count_up :: "(key \<times> int) list \<Rightarrow> key \<Rightarrow> (key \<times> int) list" where
  "count_up counts n =
     (case map_of counts n of
        Some c \<Rightarrow> AList.update n (c + 1) counts
      | None \<Rightarrow> AList.update n 1 counts)"

definition gate_connectors :: "(key \<times> key) list \<Rightarrow> (key \<times> int) list" where
  "gate_connectors conns =
     fold (\<lambda>c counts. count_up (count_up counts (fst c)) (snd c)) conns []"

text \<open>
  \<^verbatim>\<open>np.where(self.board == name, '__', self.board)\<close> builds a new array, to which
  \<^verbatim>\<open>self.board\<close> is then bound; the old array is left as it is.
\<close>

definition np_where_clear :: "string \<Rightarrow> grid \<Rightarrow> grid" where
  "np_where_clear name g = map (map (map (\<lambda>c. if c = name then ''__'' else c))) g"

definition delete_connection ::
  "heap \<Rightarrow> circuit_board \<Rightarrow> nat \<Rightarrow> string \<Rightarrow> error + heap \<times> circuit_board" where
  "delete_connection h self i name =
     bind_err (py_nth (connections self) i) (\<lambda>c.
     bind_err (dict_add (needs_connections self) (fst c) 1) (\<lambda>nc1.
     bind_err (py_nth (connections self) i) (\<lambda>c'.
     bind_err (dict_add nc1 (snd c') 1) (\<lambda>nc2.
       Inr (h @ [np_where_clear name (h ! board self)],
            self\<lparr>needs_connections := nc2, board := length h\<rparr>)))))"

text \<open>\<^verbatim>\<open>reset_board\<close>, called by the constructor.\<close>

fun place_gates :: "heap \<Rightarrow> circuit_board \<Rightarrow> (key \<times> node) list \<Rightarrow> error + heap" where
  "place_gates h self [] = Inr h"
| "place_gates h self (gl # rest) =
     bind_err (set_node h self (snd gl) ''GA'') (\<lambda>h'. place_gates h' self rest)"

definition register_neighbor ::
  "key \<Rightarrow> node \<Rightarrow> (node \<times> key list) list \<Rightarrow> (node \<times> key list) list" where
  "register_neighbor gate neighbor nb =
     (case map_of nb neighbor of
        Some gs \<Rightarrow> AList.update neighbor (gs @ [gate]) nb
      | None \<Rightarrow> AList.update neighbor [gate] nb)"

fun build_neighbor_of ::
  "heap \<Rightarrow> circuit_board \<Rightarrow> (key \<times> node) list \<Rightarrow> error + circuit_board" where
  "build_neighbor_of h self [] = Inr self"
| "build_neighbor_of h self (gl # rest) =
     bind_err (node_neighbors h self (snd gl)) (\<lambda>neighbors.
       build_neighbor_of h
         (self\<lparr>neighbor_of := fold (register_neighbor (fst gl)) neighbors (neighbor_of self)\<rparr>)
         rest)"

fun build_free_connectors ::
  "heap \<Rightarrow> circuit_board \<Rightarrow> (key \<times> node) list \<Rightarrow> error + circuit_board" where
  "build_free_connectors h self [] = Inr self"
| "build_free_connectors h self (gl # rest) =
     bind_err (node_neighbors h self (snd gl)) (\<lambda>neighbors.
       build_free_connectors h
         (self\<lparr>free_connectors := fold insert neighbors (free_connectors self)\<rparr>)
         rest)"

definition reset_board :: "heap \<Rightarrow> circuit_board \<Rightarrow> error + heap \<times> circuit_board" where
  "reset_board h self =
     bind_err (np_full (dimensions self)) (\<lambda>g.
       (let h0 = h @ [g]; self0 = self\<lparr>board := length h\<rparr> in
        bind_err (place_gates h0 self0 (gates self0)) (\<lambda>h1.
          (let self1 = self0\<lparr>needs_connections := gate_connectors (connections self0),
                             neighbor_of := []\<rparr> in
           bind_err (build_neighbor_of h1 self1 (gates self1)) (\<lambda>self2.
           bind_err (build_free_connectors h1 (self2\<lparr>free_connectors := {}\<rparr>) (gates self2))
             (\<lambda>self3. Inr (h1, self3)))))))"

text \<open>
  The constructor \<^verbatim>\<open>circuit_board(gates, connections, dimensions)\<close>. The three
  attributes that \<^verbatim>\<open>reset_board\<close> creates do not exist before it runs; it assigns
  each of them before any read.
\<close>

definition new_circuit_board ::
  "heap \<Rightarrow> (key \<times> node) list \<Rightarrow> (key \<times> key) list \<Rightarrow> int \<times> int \<times> int
     \<Rightarrow> error + heap \<times> circuit_board" where
  "new_circuit_board h gs conns dims =
     reset_board h
       \<lparr>dimensions = dims, gates = gs, connections = conns, board = length h,
        needs_connections = [], neighbor_of = [], free_connectors = {}\<rparr>"

subsection \<open>The pair router\<close>

definition keep_best :: "node list \<Rightarrow> search_result \<Rightarrow> node list" where
  "keep_best best r =
     (case r of
        NoPath \<Rightarrow> best
      | Path path \<Rightarrow>
          if best = [] then path
          else if length path < length best then path
          else best)"

fun connect_inner ::
  "heap \<Rightarrow> circuit_board \<Rightarrow> node \<Rightarrow> node list \<Rightarrow> node list \<Rightarrow> (error + node list) option" where
  "connect_inner h self neighbor_1 [] best = Some (Inr best)"
| "connect_inner h self neighbor_1 (neighbor_2 # rest) best =
     bind_res (search neighbor_1 neighbor_2 h self)
       (\<lambda>r. connect_inner h self neighbor_1 rest (keep_best best r))"

fun connect_outer ::
  "heap \<Rightarrow> circuit_board \<Rightarrow> node list \<Rightarrow> node list \<Rightarrow> node list \<Rightarrow> (error + node list) option" where
  "connect_outer h self [] n2 best = Some (Inr best)"
| "connect_outer h self (neighbor_1 # rest) n2 best =
     bind_res (connect_inner h self neighbor_1 n2 best) (connect_outer h self rest n2)"

definition gate_neighbors :: "heap \<Rightarrow> circuit_board \<Rightarrow> key \<Rightarrow> error + node list" where
  "gate_neighbors h self gate = bind_err (lookup (gates self) gate) (node_neighbors h self)"

definition connect_gates ::
  "heap \<Rightarrow> circuit_board \<Rightarrow> key \<times> key \<Rightarrow> (error + node list) option" where
  "connect_gates h self gs =
     bind_res (Some (gate_neighbors h self (fst gs))) (\<lambda>n1.
     bind_res (Some (gate_neighbors h self (snd gs))) (\<lambda>n2.
       connect_outer h self n1 n2 []))"

subsection \<open>The optimizer\<close>

text \<open>\<^verbatim>\<open>"%02d" % x\<close>: the decimal digits of \<open>x\<close>, with a leading zero below ten.\<close>

definition digit_char :: "nat \<Rightarrow> char" where
  "digit_char d = char_of (48 + d)"

fun decimal :: "nat \<Rightarrow> string" where
  "decimal n = (if n < 10 then [digit_char n] else decimal (n div 10) @ [digit_char (n mod 10)])"

declare decimal.simps [simp del]

definition wire_name :: "nat \<Rightarrow> string" where
  "wire_name x = (if x < 10 then CHR ''0'' # decimal x else decimal x)"

definition wire_names :: "circuit_board \<Rightarrow> string list" where
  "wire_names self = map wire_name [1 ..< length (connections self) + 1]"

definition max_iters :: nat where
  "max_iters = 1000"

definition v_opt :: nat where
  "v_opt = 2"

text \<open>
  What \<^verbatim>\<open>best_solution\<close> is bound to: at first the list \<^verbatim>\<open>ordering\<close>, later the
  array that \<^verbatim>\<open>self.board\<close> named when an improvement was saved. The assignment
  \<^verbatim>\<open>best_solution = self.board\<close> copies the reference, not the array.
\<close>

datatype solution = Indices "nat list" | Array nat

text \<open>
  The local variables of \<^verbatim>\<open>complete_board\<close>, the object and the store. The field
  \<open>snapshot\<close> is not a variable of the program: it keeps a copy of the grid as it was
  when an improvement was last saved, so that the final board can be compared with it.
  No function reads it.
\<close>

record optimizer =
  self :: circuit_board
  store :: heap
  ordering :: "nat list"
  iter :: nat
  best_solution :: solution
  best_score :: nat
  completed_previously :: nat
  completed_wires :: "nat list"
  snapshot :: "grid option"

text \<open>
  \<^verbatim>\<open>random.sample(population, k)\<close> raises \<^verbatim>\<open>ValueError\<close> when \<open>k\<close> exceeds the size of
  the population; otherwise it draws \<open>k\<close> elements at distinct positions. The draws
  are taken from a list of numbers supplied from outside, one number for each element
  drawn.
\<close>

fun draw :: "nat list \<Rightarrow> 'a list \<Rightarrow> nat \<Rightarrow> 'a list" where
  "draw rs pool 0 = []"
| "draw rs pool (Suc k) =
     (let j = (case rs of [] \<Rightarrow> 0 | r # _ \<Rightarrow> r mod length pool) in
      pool ! j # draw (tl rs) (take j pool @ drop (Suc j) pool) k)"

definition random_sample :: "nat list \<Rightarrow> 'a list \<Rightarrow> nat \<Rightarrow> error + 'a list" where
  "random_sample rs population k =
     (if k > length population then Inl ValueError else Inr (draw rs population k))"

text \<open>\<^verbatim>\<open>xs.remove(x)\<close>\<close>

definition list_remove :: "'a list \<Rightarrow> 'a \<Rightarrow> error + 'a list" where
  "list_remove xs x = (if x \<in> set xs then Inr (remove1 x xs) else Inl ValueError)"

text \<open>The body of \<^verbatim>\<open>for i in ordering\<close>.\<close>

definition mark_routed :: "optimizer \<Rightarrow> nat \<Rightarrow> key \<times> key \<Rightarrow> error + optimizer" where
  "mark_routed st i c =
     bind_err (dict_add (needs_connections (self st)) (fst c) (- 1)) (\<lambda>nc1.
     bind_err (dict_add nc1 (snd c) (- 1)) (\<lambda>nc2.
       Inr (st\<lparr>completed_wires := completed_wires st @ [i],
               self := (self st)\<lparr>needs_connections := nc2\<rparr>\<rparr>)))"

definition route :: "optimizer \<Rightarrow> nat \<Rightarrow> (error + optimizer) option" where
  "route st i =
     (if i \<in> set (completed_wires st) then Some (Inr st)
      else
        bind_res (Some (py_nth (connections (self st)) i)) (\<lambda>c.
        bind_res (connect_gates (store st) (self st) c) (\<lambda>path.
        bind_res (Some (if length path > 0 then mark_routed st i c else Inr st)) (\<lambda>st1.
        bind_res (Some (py_nth (wire_names (self st1)) i)) (\<lambda>name.
        bind_res (Some (paint (store st1) (self st1) path name)) (\<lambda>h.
          Some (Inr (st1\<lparr>store := h\<rparr>))))))))"

fun routing_pass :: "optimizer \<Rightarrow> nat list \<Rightarrow> (error + optimizer) option" where
  "routing_pass st [] = Some (Inr st)"
| "routing_pass st (i # rest) = bind_res (route st i) (\<lambda>st'. routing_pass st' rest)"

text \<open>\<^verbatim>\<open>if len(completed_wires) > best_score: ...\<close>\<close>

definition save_improvement :: "optimizer \<Rightarrow> optimizer" where
  "save_improvement st =
     (if length (completed_wires st) > best_score st
      then st\<lparr>best_score := length (completed_wires st),
              best_solution := Array (board (self st)),
              snapshot := Some (store st ! board (self st))\<rparr>
      else st)"

text \<open>The body of \<^verbatim>\<open>for j in to_delete\<close>.\<close>

definition undo :: "optimizer \<Rightarrow> nat \<Rightarrow> error + optimizer" where
  "undo st j =
     bind_err (py_nth (wire_names (self st)) j) (\<lambda>name.
     bind_err (delete_connection (store st) (self st) j name) (\<lambda>hs.
     bind_err (list_remove (completed_wires st) j) (\<lambda>cw.
       Inr (st\<lparr>store := fst hs, self := snd hs, completed_wires := cw\<rparr>))))"

fun undo_all :: "optimizer \<Rightarrow> nat list \<Rightarrow> error + optimizer" where
  "undo_all st [] = Inr st"
| "undo_all st (j # rest) = bind_err (undo st j) (\<lambda>st'. undo_all st' rest)"

text \<open>
  The perturbation. The numbers for the two samples of the perturbation that starts
  with \<^verbatim>\<open>iter\<close> \<open>= k\<close> are \<open>rnd (2 * k)\<close> and \<open>rnd (2 * k + 1)\<close>.
\<close>

definition perturb :: "(nat \<Rightarrow> nat list) \<Rightarrow> optimizer \<Rightarrow> error + optimizer" where
  "perturb rnd st =
     bind_err (random_sample (rnd (2 * iter st)) (completed_wires st) v_opt) (\<lambda>to_delete.
     bind_err (undo_all st to_delete) (\<lambda>st1.
     bind_err (random_sample (rnd (2 * iter st + 1)) (ordering st1) (length (ordering st1)))
       (\<lambda>shuffled. Inr (st1\<lparr>ordering := shuffled, iter := iter st1 + 1\<rparr>))))"

partial_function (option) complete_loop ::
  "(nat \<Rightarrow> nat list) \<Rightarrow> optimizer \<Rightarrow> (error + optimizer) option" where
  "complete_loop rnd st =
     (if length (connections (self st)) > length (completed_wires st)
      then
        (case routing_pass st (ordering st) of
           None \<Rightarrow> None
         | Some (Inl e) \<Rightarrow> Some (Inl e)
         | Some (Inr st1) \<Rightarrow>
             (let st2 = save_improvement st1 in
              if length (completed_wires st2) = completed_previously st2
              then
                if iter st2 = max_iters then Some (Inr st2)
                else
                  (case perturb rnd st2 of
                     Inl e \<Rightarrow> Some (Inl e)
                   | Inr st3 \<Rightarrow>
                       complete_loop rnd
                         (st3\<lparr>completed_previously := length (completed_wires st3)\<rparr>))
              else
                complete_loop rnd
                  (st2\<lparr>completed_previously := length (completed_wires st2)\<rparr>)))
      else Some (Inr st))"

declare complete_loop.simps [code]

text \<open>\<^verbatim>\<open>[len(self.connect_gates(c)) for c in self.connections]\<close>\<close>

fun distances :: "heap \<Rightarrow> circuit_board \<Rightarrow> (key \<times> key) list \<Rightarrow> (error + nat list) option" where
  "distances h self0 [] = Some (Inr [])"
| "distances h self0 (c # rest) =
     bind_res (connect_gates h self0 c) (\<lambda>path.
     bind_res (distances h self0 rest) (\<lambda>ds. Some (Inr (length path # ds))))"

definition initial_optimizer :: "heap \<Rightarrow> circuit_board \<Rightarrow> nat list \<Rightarrow> optimizer" where
  "initial_optimizer h self0 ds =
     (let indexes = [0 ..< length (connections self0)];
          ordering0 = map fst (sort_key snd (zip indexes ds)) in
      \<lparr>self = self0, store = h, ordering = ordering0, iter = 0,
       best_solution = Indices ordering0, best_score = 0, completed_previously = 0,
       completed_wires = [], snapshot = None\<rparr>)"



section \<open>Boards used as examples\<close>

text \<open>Two gates side by side on a board of two cells: nothing can be routed.\<close>

definition adjacent_gates :: "heap \<times> circuit_board" where
  "adjacent_gates =
     ([[[[''GA'', ''GA'']]]],
      \<lparr>dimensions = (1, 1, 2),
       gates = [(GateNo 1, (0, 0, 0)), (GateNo 2, (0, 0, 1))],
       connections = [(GateNo 1, GateNo 2)], board = 0,
       needs_connections = [(GateNo 1, 1), (GateNo 2, 1)],
       neighbor_of = [], free_connectors = {}\<rparr>)"

definition adjacent_start :: optimizer where
  "adjacent_start = initial_optimizer (fst adjacent_gates) (snd adjacent_gates) [0]"

text \<open>Two gates at the ends of a board of three cells, to be connected to each other.\<close>

definition line_board :: "heap \<times> circuit_board" where
  "line_board =
     ([[[[''GA'', ''__'', ''GA'']]]],
      \<lparr>dimensions = (1, 1, 3),
       gates = [(GateNo 1, (0, 0, 0)), (GateNo 2, (0, 0, 2))],
       connections = [(GateNo 1, GateNo 2)], board = 0,
       needs_connections = [(GateNo 1, 1), (GateNo 2, 1)],
       neighbor_of = [((0, 0, 1), [GateNo 1, GateNo 2])],
       free_connectors = {(0, 0, 1)}\<rparr>)"

text \<open>The optimizer on that board before its first pass, and after routing its only net.\<close>

definition line_start :: optimizer where
  "line_start = initial_optimizer (fst line_board) (snd line_board) [1]"

definition line_marked :: optimizer where
  "line_marked =
     line_start\<lparr>completed_wires := [0],
                 self := (snd line_board)\<lparr>needs_connections := [(GateNo 1, 0), (GateNo 2, 0)]\<rparr>\<rparr>"

definition line_painted :: heap where
  "line_painted = [[[[''GA'', ''01'', ''GA'']]]]"

text \<open>Further states of the optimizer on the board of three cells.\<close>

definition line_routed :: optimizer where
  "line_routed = line_marked\<lparr>store := line_painted\<rparr>"

definition line_undone :: optimizer where
  "line_undone =
     line_routed\<lparr>store := line_painted @ [[[[''GA'', ''__'', ''GA'']]]],
                  self := (snd line_board)\<lparr>board := 1\<rparr>,
                  completed_wires := []\<rparr>"

definition line_final :: optimizer where
  "line_final =
     line_routed\<lparr>best_solution := Array 0, best_score := 1, completed_previously := 1,
                  snapshot := Some [[[''GA'', ''01'', ''GA'']]]\<rparr>"

text \<open>
  A row of five cells with four gates and a hundred nets: ninety-nine between the gates
  3 and 4, which have no vacant neighbor, and as the last one the net between the gates 1
  and 2, which share the vacant cell between them.
\<close>

definition hundred_nets :: "heap \<times> circuit_board" where
  "hundred_nets =
     ([[[[''GA'', ''__'', ''GA'', ''GA'', ''GA'']]]],
      \<lparr>dimensions = (1, 1, 5),
       gates = [(GateNo 1, (0, 0, 0)), (GateNo 2, (0, 0, 2)),
                (GateNo 3, (0, 0, 3)), (GateNo 4, (0, 0, 4))],
       connections = replicate 99 (GateNo 3, GateNo 4) @ [(GateNo 1, GateNo 2)],
       board = 0,
       needs_connections = [(GateNo 3, 99), (GateNo 4, 99), (GateNo 1, 1), (GateNo 2, 1)],
       neighbor_of = [((0, 0, 1), [GateNo 1, GateNo 2])],
       free_connectors = {(0, 0, 1)}\<rparr>)"

text \<open>
  The optimizer on that board before its first pass; when the net at index 99 has been
  routed; and when that net has then been undone.
\<close>

definition hundred_start :: optimizer where
  "hundred_start =
     initial_optimizer (fst hundred_nets) (snd hundred_nets) (replicate 99 0 @ [1])"

definition hundred_routed :: optimizer where
  "hundred_routed =
     hundred_start\<lparr>completed_wires := [99],
       self := (snd hundred_nets)\<lparr>needs_connections :=
                 [(GateNo 3, 99), (GateNo 4, 99), (GateNo 1, 0), (GateNo 2, 0)]\<rparr>,
       store := [[[[''GA'', ''10'', ''GA'', ''GA'', ''GA'']]]]\<rparr>"

definition hundred_undone :: optimizer where
  "hundred_undone =
     hundred_routed\<lparr>store := [[[[''GA'', ''10'', ''GA'', ''GA'', ''GA'']]],
                               [[[''GA'', ''10'', ''GA'', ''GA'', ''GA'']]]],
       self := (snd hundred_nets)\<lparr>board := 1\<rparr>,
       completed_wires := []\<rparr>"

section \<open>Relations used in the statements\<close>

text \<open>
  How a cell of a grid on which a path has been painted relates to the same cell before:
  either it is unchanged and does not carry the label, or it carries the label and was
  empty.
\<close>

definition repainted :: "string \<Rightarrow> string \<Rightarrow> string \<Rightarrow> bool" where
  "repainted name c0 c \<longleftrightarrow> (c = c0 \<and> c0 \<noteq> name) \<or> (c = name \<and> c0 = ''__'')"

abbreviation grids_rel :: "string \<Rightarrow> grid \<Rightarrow> grid \<Rightarrow> bool" where
  "grids_rel name \<equiv> list_all2 (list_all2 (list_all2 (repainted name)))"

text \<open>
  The required degree of a gate: the number of times it occurs as an endpoint in a list
  of connections. The nets that are routed are the connections at the indices in
  \<^verbatim>\<open>completed_wires\<close>; a gate has as many routed nets incident to it as it has
  occurrences as an endpoint among them.
\<close>

definition degree :: "(key \<times> key) list \<Rightarrow> key \<Rightarrow> nat" where
  "degree conns g =
     length (filter (\<lambda>c. fst c = g) conns) + length (filter (\<lambda>c. snd c = g) conns)"

definition routed_nets :: "optimizer \<Rightarrow> (key \<times> key) list" where
  "routed_nets st = map (\<lambda>i. connections (self st) ! i) (completed_wires st)"

definition endpoints :: "(key \<times> key) list \<Rightarrow> key set" where
  "endpoints conns = set (map fst conns) \<union> set (map snd conns)"

text \<open>
  The invariant of the counters: the routed list names each routed connection once,
  the counters are those of the gates that occur in the connection list, and each
  counter is the required degree less the routed nets at the gate.
\<close>

definition counters_ok :: "optimizer \<Rightarrow> bool" where
  "counters_ok st \<longleftrightarrow>
     distinct (completed_wires st)
     \<and> (\<forall>i\<in>set (completed_wires st). i < length (connections (self st)))
     \<and> set (map fst (needs_connections (self st))) = endpoints (connections (self st))
     \<and> (\<forall>g\<in>endpoints (connections (self st)).
           map_of (needs_connections (self st)) g
             = Some (int (degree (connections (self st)) g) - int (degree (routed_nets st) g)))"

text \<open>The value of a counter, zero for a gate that has none.\<close>

definition counter_value :: "(key \<times> int) list \<Rightarrow> key \<Rightarrow> int" where
  "counter_value d g = (case map_of d g of None \<Rightarrow> 0 | Some v \<Rightarrow> v)"

section \<open>Notions used in the statements about the search\<close>

text \<open>Two nodes differ by one unit along exactly one axis.\<close>

definition adjacent :: "node \<Rightarrow> node \<Rightarrow> bool" where
  "adjacent a b = (case a of (z, x, y) \<Rightarrow> case b of (z', x', y') \<Rightarrow>
     (\<bar>z - z'\<bar> = 1 \<and> x = x' \<and> y = y')
     \<or> (z = z' \<and> \<bar>x - x'\<bar> = 1 \<and> y = y')
     \<or> (z = z' \<and> x = x' \<and> \<bar>y - y'\<bar> = 1))"

fun contiguous :: "node list \<Rightarrow> bool" where
  "contiguous [] = True"
| "contiguous [a] = True"
| "contiguous (a # b # rest) = (adjacent a b \<and> contiguous (b # rest))"

text \<open>
  \<open>n\<close> is among the neighbors that \<^verbatim>\<open>node_neighbors\<close> enumerates at \<open>p\<close>; a list of
  nodes, written from the goal back to the start as \<^verbatim>\<open>reconstruct_path\<close> returns it, in
  which each node is enumerated at the node after it.
\<close>

definition enumerated_at :: "heap \<Rightarrow> circuit_board \<Rightarrow> node \<Rightarrow> node \<Rightarrow> bool" where
  "enumerated_at h c_board p n =
     (case node_neighbors h c_board p of Inl e \<Rightarrow> False | Inr ns \<Rightarrow> n \<in> set ns)"

fun walk_back :: "heap \<Rightarrow> circuit_board \<Rightarrow> node list \<Rightarrow> bool" where
  "walk_back h c_board [] = True"
| "walk_back h c_board [a] = True"
| "walk_back h c_board (a # b # rest) =
     (enumerated_at h c_board b a \<and> walk_back h c_board (b # rest))"

text \<open>What holds of the back-pointers and scores while a search from \<open>start\<close> runs.\<close>

definition search_inv :: "heap \<Rightarrow> circuit_board \<Rightarrow> node \<Rightarrow> search_state \<Rightarrow> bool" where
  "search_inv h c_board start st \<longleftrightarrow>
     map_of (came_from st) start = None
     \<and> (\<forall>n p. map_of (came_from st) n = Some p \<longrightarrow>
           enumerated_at h c_board p n \<and> (p = start \<or> map_of (came_from st) p \<noteq> None))
     \<and> (\<forall>n. n \<in> fst ` set (f_score st) \<longrightarrow> n = start \<or> map_of (came_from st) n \<noteq> None)
     \<and> (start \<in> closed_set st \<or> fst ` set (f_score st) \<subseteq> {start})"

text \<open>The same while the neighbors of \<open>cur\<close> are being relaxed.\<close>

definition relaxing :: "heap \<Rightarrow> circuit_board \<Rightarrow> node \<Rightarrow> node \<Rightarrow> search_state \<Rightarrow> bool" where
  "relaxing h b start cur st \<longleftrightarrow>
     search_inv h b start st \<and> start \<in> closed_set st \<and> cur \<in> closed_set st
     \<and> (cur = start \<or> map_of (came_from st) cur \<noteq> None)"

section \<open>Further boards used as examples\<close>

text \<open>A board of four empty cells without gates.\<close>

definition open_board :: "heap \<times> circuit_board" where
  "open_board =
     ([[[[''__'', ''__''], [''__'', ''__'']]]],
      \<lparr>dimensions = (1, 2, 2), gates = [], connections = [], board = 0,
       needs_connections = [], neighbor_of = [], free_connectors = {}\<rparr>)"

text \<open>A board of three cells in a row with a gate in the middle one.\<close>

definition walled_board :: "heap \<times> circuit_board" where
  "walled_board =
     ([[[[''__'', ''GA'', ''__'']]]],
      \<lparr>dimensions = (1, 1, 3), gates = [(GateNo 1, (0, 0, 1))], connections = [], board = 0,
       needs_connections = [],
       neighbor_of = [((0, 0, 2), [GateNo 1]), ((0, 0, 0), [GateNo 1])],
       free_connectors = {(0, 0, 0), (0, 0, 2)}\<rparr>)"


section \<open>Notions used in the statement about the pair router\<close>

text \<open>
  The searches of the pair router, one for each departure cell and arrival cell, the
  departure cell varying slowest; the paths among their results; and the shortest of a
  list of paths, the first of them among those of equal length, or the empty list when
  there is no path.
\<close>

definition all_searches ::
  "heap \<Rightarrow> circuit_board \<Rightarrow> node list \<Rightarrow> node list \<Rightarrow> (error + search_result) option list" where
  "all_searches h c_board n1 n2 =
     map (\<lambda>sg. search (fst sg) (snd sg) h c_board) (List.product n1 n2)"

definition found_paths :: "search_result list \<Rightarrow> node list list" where
  "found_paths rs = concat (map (\<lambda>r. case r of NoPath \<Rightarrow> [] | Path p \<Rightarrow> [p]) rs)"

definition shortest_first :: "node list list \<Rightarrow> node list" where
  "shortest_first ps =
     (case find (\<lambda>p. \<forall>q\<in>set ps. length p \<le> length q) ps of None \<Rightarrow> [] | Some p \<Rightarrow> p)"

text \<open>Two gates at opposite corners of a board of four cells, to be connected.\<close>

definition corner_board :: "heap \<times> circuit_board" where
  "corner_board =
     ([[[[''GA'', ''__''], [''__'', ''GA'']]]],
      \<lparr>dimensions = (1, 2, 2),
       gates = [(GateNo 1, (0, 0, 0)), (GateNo 2, (0, 1, 1))],
       connections = [(GateNo 1, GateNo 2)], board = 0,
       needs_connections = [(GateNo 1, 1), (GateNo 2, 1)],
       neighbor_of = [((0, 1, 0), [GateNo 1, GateNo 2]), ((0, 0, 1), [GateNo 1, GateNo 2])],
       free_connectors = {(0, 0, 1), (0, 1, 0)}\<rparr>)"

section \<open>The saved grid\<close>

text \<open>
  What holds of \<^verbatim>\<open>best_solution\<close> between two passes of the optimizer: once a best
  count has been recorded, \<^verbatim>\<open>best_solution\<close> names an array whose content is the grid
  as it was when the count was recorded, and when that array is the one that
  \<^verbatim>\<open>self.board\<close> names, no connection has been routed or undone since.
\<close>

definition snapshot_kept :: "optimizer \<Rightarrow> bool" where
  "snapshot_kept st \<longleftrightarrow>
     board (self st) < length (store st)
     \<and> length (completed_wires st) \<le> best_score st
     \<and> (iter st = 0 \<or> 0 < best_score st)
     \<and> (0 < best_score st \<longrightarrow>
          (case best_solution st of
             Indices _ \<Rightarrow> False
           | Array a \<Rightarrow>
               a < length (store st) \<and> snapshot st = Some (store st ! a)
               \<and> (a = board (self st) \<longrightarrow> length (completed_wires st) = best_score st)))"


section \<open>A corridor\<close>

text \<open>
  A board of \<open>n\<close> empty cells in a row, without gates; its cells; and the state of a
  search from its first cell to the cell at \<open>goal\<close> when the loop has run \<open>k\<close> times:
  the first \<open>k\<close> cells are closed and the next one is open.
\<close>

definition corridor :: "nat \<Rightarrow> heap \<times> circuit_board" where
  "corridor n =
     ([[[replicate n ''__'']]],
      \<lparr>dimensions = (1, 1, int n), gates = [], connections = [], board = 0,
       needs_connections = [], neighbor_of = [], free_connectors = {}\<rparr>)"

definition along :: "nat \<Rightarrow> node" where
  "along k = (0, 0, int k)"

definition corridor_state :: "nat \<Rightarrow> nat \<Rightarrow> search_state" where
  "corridor_state goal k =
     \<lparr>closed_set = along ` {..<k}, open_set = {along k},
      came_from = map (\<lambda>i. (along (Suc i), along i)) [0..<k],
      g_score = map (\<lambda>i. (along i, int i)) [0..<Suc k],
      f_score = map (\<lambda>i. (along i, int goal)) [0..<Suc k]\<rparr>"

text \<open>
  The state of that search after the cell at index 999 has been expanded: the cell at
  index 1000 is open and nothing else is recorded for it.
\<close>

definition corridor_stuck :: "nat \<Rightarrow> search_state" where
  "corridor_stuck goal =
     (corridor_state goal 999)\<lparr>closed_set := along ` {..<1000}, open_set := {along 1000}\<rparr>"

text \<open>
  Gate identifiers that are numbers, as the spreadsheet gives them: no key of
  \<^verbatim>\<open>needs_connections\<close> is a coordinate triple.
\<close>

definition numbered_gates :: "circuit_board \<Rightarrow> bool" where
  "numbered_gates c_board =
     list_all (\<lambda>kv. case fst kv of GateNo _ \<Rightarrow> True | Coord _ _ _ \<Rightarrow> False)
       (needs_connections c_board)"

section \<open>Notions used for searches along a straight line\<close>

text \<open>
  A node inside the board; a grid of the shape that the dimensions give; the six
  nodes that \<^verbatim>\<open>node_neighbors\<close> tests, in its order; the cells of a straight line from
  \<open>s\<close> in the direction \<open>d\<close>.
\<close>

definition in_bounds :: "int \<times> int \<times> int \<Rightarrow> node \<Rightarrow> bool" where
  "in_bounds dims n = (case dims of (bz, bx, by) \<Rightarrow> case n of (z, x, y) \<Rightarrow>
     0 \<le> z \<and> z < bz \<and> 0 \<le> x \<and> x < bx \<and> 0 \<le> y \<and> y < by)"

definition shaped :: "int \<times> int \<times> int \<Rightarrow> grid \<Rightarrow> bool" where
  "shaped dims g = (case dims of (bz, bx, by) \<Rightarrow>
     int (length g) = bz
     \<and> list_all (\<lambda>plane. int (length plane) = bx
           \<and> list_all (\<lambda>row. int (length row) = by) plane) g)"

definition six_candidates :: "node \<Rightarrow> node list" where
  "six_candidates n = (case n of (z, x, y) \<Rightarrow>
     [(z + 1, x, y), (z - 1, x, y), (z, x + 1, y), (z, x - 1, y), (z, x, y + 1), (z, x, y - 1)])"

definition vacant :: "int \<times> int \<times> int \<Rightarrow> grid \<Rightarrow> node \<Rightarrow> bool" where
  "vacant dims g n \<longleftrightarrow> in_bounds dims n \<and> cell g n = Inr ''__''"

definition line_cell :: "node \<Rightarrow> node \<Rightarrow> nat \<Rightarrow> node" where
  "line_cell s d i = (case s of (z, x, y) \<Rightarrow> case d of (dz, dx, dy) \<Rightarrow>
     (z + int i * dz, x + int i * dx, y + int i * dy))"

text \<open>
  What holds of the state of a search from \<open>start\<close> at the head of every iteration: the
  f-scores are kept under distinct keys and are the g-scores plus the heuristic; no g-score
  is below the Manhattan distance from the start; a back-pointer leads to a closed node
  whose g-score is one less; only a node with g-score 0 has no back-pointer; no node is
  both open and closed, and all of them are inside the board.
\<close>

definition searching :: "int \<times> int \<times> int \<Rightarrow> node \<Rightarrow> node \<Rightarrow> search_state \<Rightarrow> bool" where
  "searching dims start goal st \<longleftrightarrow>
     distinct (map fst (f_score st))
     \<and> (\<forall>n. map_of (f_score st) n
            = map_option (\<lambda>g. g + manhattan n goal) (map_of (g_score st) n))
     \<and> (\<forall>n g. map_of (g_score st) n = Some g \<longrightarrow> manhattan start n \<le> g)
     \<and> (\<forall>n p. map_of (came_from st) n = Some p \<longrightarrow>
            p \<in> closed_set st
            \<and> (\<exists>g. map_of (g_score st) p = Some g \<and> map_of (g_score st) n = Some (g + 1)))
     \<and> (\<forall>n g. map_of (g_score st) n = Some g \<longrightarrow> map_of (came_from st) n = None \<longrightarrow> g = 0)
     \<and> open_set st \<inter> closed_set st = {}
     \<and> (\<forall>n. n \<in> open_set st \<union> closed_set st \<longrightarrow> in_bounds dims n)"

text \<open>
  The cells 1 to \<open>len\<close> of the line from \<open>start\<close> in the direction \<open>d\<close> are inside the
  board and hold \<^verbatim>\<open>'__'\<close>; and, during a search along that line, some cell \<open>k\<close> of it is
  open with g-score \<open>k\<close> while no cell from there on is closed.
\<close>

definition straight_line :: "heap \<Rightarrow> circuit_board \<Rightarrow> node \<Rightarrow> node \<Rightarrow> nat \<Rightarrow> bool" where
  "straight_line h c_board start d len \<longleftrightarrow>
     d \<in> set (six_candidates (0, 0, 0))
     \<and> in_bounds (dimensions c_board) start
     \<and> (\<forall>i. 1 \<le> i \<and> i \<le> len \<longrightarrow>
           vacant (dimensions c_board) (h ! board c_board) (line_cell start d i))"

definition on_line :: "node \<Rightarrow> node \<Rightarrow> nat \<Rightarrow> search_state \<Rightarrow> bool" where
  "on_line start d len st \<longleftrightarrow>
     (\<exists>k \<le> len. line_cell start d k \<in> open_set st
         \<and> map_of (g_score st) (line_cell start d k) = Some (int k)
         \<and> (\<forall>j. k \<le> j \<and> j \<le> len \<longrightarrow> line_cell start d j \<notin> closed_set st))"

section \<open>Basic facts\<close>

lemma bind_err_simps [simp]:
  "bind_err (Inl e) f = Inl e"
  "bind_err (Inr v) f = f v"
  by (simp_all add: bind_err_def)

lemma bind_res_simps [simp]:
  "bind_res None f = None"
  "bind_res (Some (Inl e)) f = Some (Inl e)"
  "bind_res (Some (Inr v)) f = f v"
  by (simp_all add: bind_res_def)

lemma bind_err_Inr_iff:
  "bind_err r f = Inr y \<longleftrightarrow> (\<exists>v. r = Inr v \<and> f v = Inr y)"
  by (auto simp: bind_err_def split: sum.splits)

lemma bind_res_Inr_iff:
  "bind_res m f = Some (Inr y) \<longleftrightarrow> (\<exists>v. m = Some (Inr v) \<and> f v = Some (Inr y))"
  by (auto simp: bind_res_def split: option.splits sum.splits)

lemma save_improvement_fields [simp]:
  "completed_wires (save_improvement st) = completed_wires st"
  "completed_previously (save_improvement st) = completed_previously st"
  "iter (save_improvement st) = iter st"
  "self (save_improvement st) = self st"
  "store (save_improvement st) = store st"
  "ordering (save_improvement st) = ordering st"
  by (simp_all add: save_improvement_def)

lemma adjacent_gates_built:
  "new_circuit_board [] [(GateNo 1, (0, 0, 0)), (GateNo 2, (0, 0, 1))]
     [(GateNo 1, GateNo 2)] (1, 1, 2) = Inr adjacent_gates"
  by code_simp

lemma line_board_built:
  "new_circuit_board [] [(GateNo 1, (0, 0, 0)), (GateNo 2, (0, 0, 2))]
     [(GateNo 1, GateNo 2)] (1, 1, 3) = Inr line_board"
  by code_simp

section \<open>The connector rule\<close>

text \<open>
  C1. The claim: wherever neighbors are enumerated, a neighbor cell that is a registered
  connector is left out when every gate registered for it still requires a connection.
  The code tests \<^verbatim>\<open>node in c_board.needs_connections\<close>, a dictionary whose keys are
  gate identifiers, with a coordinate triple, so the test fails and the rule is never
  applied. On the board of three cells with gates 1 and 2 at the ends, built by the
  constructor, the middle cell is registered as the connector of both gates, both gates
  still require one connection, and the enumeration at the first gate returns the
  middle cell.
\<close>

theorem contended_connector_is_enumerated:
  "new_circuit_board [] [(GateNo 1, (0, 0, 0)), (GateNo 2, (0, 0, 2))]
     [(GateNo 1, GateNo 2)] (1, 1, 3) = Inr line_board
   \<and> lookup (neighbor_of (snd line_board)) (0, 0, 1) = Inr [GateNo 1, GateNo 2]
   \<and> lookup (needs_connections (snd line_board)) (GateNo 1) = Inr 1
   \<and> lookup (needs_connections (snd line_board)) (GateNo 2) = Inr 1
   \<and> check_free_connector (snd line_board) (0, 0, 1) = Inr False
   \<and> node_neighbors (fst line_board) (snd line_board) (0, 0, 0) = Inr [(0, 0, 1)]"
  by code_simp

section \<open>The perturbation needs two routed connections\<close>

text \<open>
  C10. When a pass of the optimizer ends with the routed count unchanged from the
  previous pass, with fewer than two connections routed and with the iteration counter
  not at its cap, the run raises the \<^verbatim>\<open>ValueError\<close> of \<^verbatim>\<open>random.sample\<close> instead
  of perturbing; so a run that completes normally had two routed connections at every
  such pass.
\<close>

theorem stagnation_below_two_raises:
  assumes more: "length (connections (self st)) > length (completed_wires st)"
    and pass: "routing_pass st (ordering st) = Some (Inr st1)"
    and stagnant: "length (completed_wires st1) = completed_previously st1"
    and cap: "iter st1 \<noteq> max_iters"
    and few: "length (completed_wires st1) < 2"
  shows "complete_loop rnd st = Some (Inl ValueError)"
proof -
  have "perturb rnd (save_improvement st1) = Inl ValueError"
    using few by (simp add: perturb_def random_sample_def v_opt_def)
  with more pass stagnant cap show ?thesis
    by (subst complete_loop.simps) (simp add: Let_def)
qed

theorem stagnation_below_two_raises_witness:
  "length (connections (self adjacent_start)) > length (completed_wires adjacent_start)
   \<and> routing_pass adjacent_start (ordering adjacent_start) = Some (Inr adjacent_start)
   \<and> length (completed_wires adjacent_start) = completed_previously adjacent_start
   \<and> iter adjacent_start \<noteq> max_iters
   \<and> length (completed_wires adjacent_start) < 2
   \<and> complete_loop (\<lambda>k. []) adjacent_start = Some (Inl ValueError)"
proof -
  have a: "length (connections (self adjacent_start)) > length (completed_wires adjacent_start)"
    by code_simp
  have b: "routing_pass adjacent_start (ordering adjacent_start) = Some (Inr adjacent_start)"
    by code_simp
  have c: "length (completed_wires adjacent_start) = completed_previously adjacent_start"
    by code_simp
  have d: "iter adjacent_start \<noteq> max_iters"
    by code_simp
  have e: "length (completed_wires adjacent_start) < 2"
    by code_simp
  from a b c d e stagnation_below_two_raises [OF a b c d e, of "\<lambda>k. []"] show ?thesis
    by simp
qed

section \<open>Painting and undoing\<close>

lemma map_eq_if_rel:
  "list_all2 R xs ys \<Longrightarrow> (\<And>x y. R x y \<Longrightarrow> f y = x) \<Longrightarrow> map f ys = xs"
  by (induction xs ys rule: list_all2_induct) simp_all

lemma np_where_clear_repainted:
  assumes "grids_rel name g0 g"
  shows "np_where_clear name g = g0"
  unfolding np_where_clear_def
  using assms
proof (rule map_eq_if_rel)
  fix p0 p :: "string list list"
  assume "list_all2 (list_all2 (repainted name)) p0 p"
  then show "map (map (\<lambda>c. if c = name then ''__'' else c)) p = p0"
  proof (rule map_eq_if_rel)
    fix r0 r :: "string list"
    assume "list_all2 (repainted name) r0 r"
    then show "map (\<lambda>c. if c = name then ''__'' else c) r = r0"
      by (rule map_eq_if_rel) (auto simp: repainted_def)
  qed
qed

lemma grids_rel_refl:
  assumes "\<forall>plane\<in>set g. \<forall>row\<in>set plane. \<forall>c\<in>set row. c \<noteq> name"
  shows "grids_rel name g g"
  using assms by (simp add: list_all2_same repainted_def)

lemma np_pos_less: "np_pos n i = Inr k \<Longrightarrow> k < n"
  by (auto simp: np_pos_def split: if_splits)

lemma set_cell_repainted:
  assumes rel: "grids_rel name g0 g"
    and empty: "cell g0 n = Inr ''__''"
    and set: "set_cell g n name = Inr g'"
    and short: "length name \<le> 2"
  shows "grids_rel name g0 g'"
proof -
  obtain a b c where n: "n = (a, b, c)" by (cases n)
  from set obtain i j k where
    i: "np_pos (length g) a = Inr i" and j: "np_pos (length (g ! i)) b = Inr j"
    and k: "np_pos (length (g ! i ! j)) c = Inr k"
    and g': "g' = g[i := (g ! i)[j := (g ! i ! j)[k := take 2 name]]]"
    by (auto simp: set_cell_def n bind_err_Inr_iff)
  have li: "i < length g" and lj: "j < length (g ! i)" and lk: "k < length (g ! i ! j)"
    using i j k by (auto dest: np_pos_less)
  have len: "length g0 = length g" using rel by (rule list_all2_lengthD)
  have rel_i: "list_all2 (list_all2 (repainted name)) (g0 ! i) (g ! i)"
    using rel li by (simp add: list_all2_conv_all_nth)
  then have len_i: "length (g0 ! i) = length (g ! i)" by (rule list_all2_lengthD)
  have rel_j: "list_all2 (repainted name) (g0 ! i ! j) (g ! i ! j)"
    using rel_i lj by (simp add: list_all2_conv_all_nth)
  then have len_j: "length (g0 ! i ! j) = length (g ! i ! j)" by (rule list_all2_lengthD)
  have "g0 ! i ! j ! k = ''__''"
    using empty i j k by (simp add: cell_def n np_index_def len len_i len_j)
  then have "repainted name (g0 ! i ! j ! k) (take 2 name)"
    using short by (simp add: repainted_def)
  then have "list_all2 (repainted name) ((g0 ! i ! j)[k := g0 ! i ! j ! k]) ((g ! i ! j)[k := take 2 name])"
    using rel_j by (rule list_all2_update_cong [rotated])
  then have "list_all2 (list_all2 (repainted name))
      ((g0 ! i)[j := g0 ! i ! j]) ((g ! i)[j := (g ! i ! j)[k := take 2 name]])"
    using rel_i by (intro list_all2_update_cong) simp_all
  then have "grids_rel name (g0[i := g0 ! i]) g'"
    unfolding g' using rel by (intro list_all2_update_cong) simp_all
  then show ?thesis by simp
qed

lemma paint_repainted:
  assumes "paint h b path name = Inr h1"
    and "board b < length h"
    and "grids_rel name g0 (h ! board b)"
    and "\<forall>n\<in>set path. cell g0 n = Inr ''__''"
    and "length name \<le> 2"
  shows "grids_rel name g0 (h1 ! board b) \<and> length h1 = length h"
  using assms
proof (induction path arbitrary: h)
  case Nil
  then show ?case by simp
next
  case (Cons n rest)
  from Cons.prems(1) obtain g' where
    g': "set_cell (h ! board b) n name = Inr g'"
    and rest: "paint (h[board b := g']) b rest name = Inr h1"
    by (auto simp: set_node_def bind_err_Inr_iff)
  have "grids_rel name g0 g'"
    using Cons.prems(3) _ g' Cons.prems(5) by (rule set_cell_repainted) (use Cons.prems(4) in simp)
  with Cons.IH [OF rest] Cons.prems show ?case by simp
qed

lemma update_swap_present:
  "k \<noteq> k' \<Longrightarrow> k \<in> fst ` set d \<Longrightarrow>
     AList.update k v (AList.update k' v' d) = AList.update k' v' (AList.update k v d)"
  by (induction d) auto

lemma dict_add_roundtrip:
  assumes 1: "dict_add d a (- 1) = Inr d1" and 2: "dict_add d1 b (- 1) = Inr d2"
  shows "\<exists>d3. dict_add d2 a 1 = Inr d3 \<and> dict_add d3 b 1 = Inr d"
proof -
  from 1 obtain va where va: "map_of d a = Some va" and d1: "d1 = AList.update a (va - 1) d"
    by (auto simp: dict_add_def lookup_def bind_err_Inr_iff split: option.splits)
  from 2 obtain vb where vb: "map_of d1 b = Some vb" and d2: "d2 = AList.update b (vb - 1) d1"
    by (auto simp: dict_add_def lookup_def bind_err_Inr_iff split: option.splits)
  show ?thesis
  proof (cases "a = b")
    case True
    with va vb d1 have "vb = va - 1" by (simp add: update_conv')
    with True d1 d2 va show ?thesis
      by (simp add: dict_add_def lookup_def update_conv' AList.update_triv)
  next
    case False
    with va vb d1 have vb': "map_of d b = Some vb" by (simp add: update_conv')
    have a_in: "a \<in> fst ` set d" using va by (auto dest!: map_of_SomeD intro: rev_image_eqI)
    have "AList.update a va d2 =
            AList.update b (vb - 1) (AList.update a va (AList.update a (va - 1) d))"
      unfolding d2 d1 using False by (intro update_swap_present) (simp_all add: dom_update)
    also have "\<dots> = AList.update b (vb - 1) d"
      using va by (simp add: AList.update_triv)
    finally have "AList.update a va d2 = AList.update b (vb - 1) d" .
    with False d1 d2 va vb vb' show ?thesis
      by (simp add: dict_add_def lookup_def update_conv' AList.update_triv)
  qed
qed

text \<open>
  A net is routed by appending it to the routed list, decrementing the counters of its
  two gates and painting its path with its wire label. When the cells of the path were
  empty, no cell carried the label, and the label fits the two-character cells of the
  array, undoing the net at once (\<^verbatim>\<open>delete_connection\<close>) succeeds and leaves a board
  equal to the board before painting and counters equal to the counters before the
  decrements.
\<close>

lemma undo_restores_short_label:
  assumes c: "py_nth (connections (self st)) i = Inr c"
    and marked: "mark_routed st i c = Inr st1"
    and name: "py_nth (wire_names (self st1)) i = Inr name"
    and painted: "paint (store st1) (self st1) path name = Inr h1"
    and ref: "board (self st) < length (store st)"
    and empty: "\<forall>n\<in>set path. cell (store st ! board (self st)) n = Inr ''__''"
    and fresh: "\<forall>plane\<in>set (store st ! board (self st)). \<forall>row\<in>set plane. \<forall>c\<in>set row. c \<noteq> name"
    and short: "length name \<le> 2"
  shows "\<exists>st2. undo (st1\<lparr>store := h1\<rparr>) i = Inr st2
           \<and> store st2 ! board (self st2) = store st ! board (self st)
           \<and> needs_connections (self st2) = needs_connections (self st)"
proof -
  let ?g0 = "store st ! board (self st)"
  from marked obtain nc1 nc2 where
    nc1: "dict_add (needs_connections (self st)) (fst c) (- 1) = Inr nc1"
    and nc2: "dict_add nc1 (snd c) (- 1) = Inr nc2"
    and st1: "st1 = st\<lparr>completed_wires := completed_wires st @ [i],
                       self := (self st)\<lparr>needs_connections := nc2\<rparr>\<rparr>"
    by (auto simp: mark_routed_def bind_err_Inr_iff)
  from dict_add_roundtrip [OF nc1 nc2] obtain nc3 where
    nc3: "dict_add nc2 (fst c) 1 = Inr nc3"
    and restored: "dict_add nc3 (snd c) 1 = Inr (needs_connections (self st))"
    by blast
  have rel: "grids_rel name ?g0 (h1 ! board (self st))" and len: "length h1 = length (store st)"
    using paint_repainted [OF painted, of ?g0] ref empty short grids_rel_refl [OF fresh]
    by (simp_all add: st1)
  have cleared: "np_where_clear name (h1 ! board (self st)) = ?g0"
    using rel by (rule np_where_clear_repainted)
  have "i \<in> set (completed_wires st1)" by (simp add: st1)
  with c name nc3 restored cleared show ?thesis
    by (simp add: undo_def delete_connection_def list_remove_def st1 wire_names_def)
qed

lemma undo_restores_short_label_on_line:
  "py_nth (connections (self line_start)) 0 = Inr (GateNo 1, GateNo 2)
   \<and> mark_routed line_start 0 (GateNo 1, GateNo 2) = Inr line_marked
   \<and> py_nth (wire_names (self line_marked)) 0 = Inr ''01''
   \<and> paint (store line_marked) (self line_marked) [(0, 0, 1)] ''01'' = Inr line_painted
   \<and> board (self line_start) < length (store line_start)
   \<and> store line_start ! board (self line_start) = [[[''GA'', ''__'', ''GA'']]]
   \<and> cell (store line_start ! board (self line_start)) (0, 0, 1) = Inr ''__''
   \<and> length ''01'' \<le> (2::nat)
   \<and> (\<exists>st2. undo (line_marked\<lparr>store := line_painted\<rparr>) 0 = Inr st2
         \<and> store st2 ! board (self st2) = store line_start ! board (self line_start)
         \<and> needs_connections (self st2) = needs_connections (self line_start))"
proof -
  have 1: "py_nth (connections (self line_start)) 0 = Inr (GateNo 1, GateNo 2)"
    by code_simp
  have 2: "mark_routed line_start 0 (GateNo 1, GateNo 2) = Inr line_marked"
    by code_simp
  have 3: "py_nth (wire_names (self line_marked)) 0 = Inr ''01''"
    by code_simp
  have 4: "paint (store line_marked) (self line_marked) [(0, 0, 1)] ''01'' = Inr line_painted"
    by code_simp
  have 5: "board (self line_start) < length (store line_start)"
    by code_simp
  have grid: "store line_start ! board (self line_start) = [[[''GA'', ''__'', ''GA'']]]"
    by code_simp
  have mid: "cell (store line_start ! board (self line_start)) (0, 0, 1) = Inr ''__''"
    by code_simp
  have 6: "\<forall>n\<in>set [(0, 0, 1)]. cell (store line_start ! board (self line_start)) n = Inr ''__''"
    using mid by simp
  have 7: "\<forall>plane\<in>set (store line_start ! board (self line_start)).
         \<forall>row\<in>set plane. \<forall>c\<in>set row. c \<noteq> ''01''"
    unfolding grid by simp
  have 8: "length ''01'' \<le> (2::nat)"
    by simp
  from undo_restores_short_label [OF 1 2 3 4 5 6 7 8] 1 2 3 4 5 grid mid 8 show ?thesis
    by blast
qed

subsection \<open>The hundredth net\<close>

lemma hundred_nets_built:
  "new_circuit_board []
     [(GateNo 1, (0, 0, 0)), (GateNo 2, (0, 0, 2)), (GateNo 3, (0, 0, 3)), (GateNo 4, (0, 0, 4))]
     (replicate 99 (GateNo 3, GateNo 4) @ [(GateNo 1, GateNo 2)]) (1, 1, 5) = Inr hundred_nets"
  by code_simp

lemma hundred_unroutable:
  "connect_gates (fst hundred_nets) (snd hundred_nets) (GateNo 3, GateNo 4) = Some (Inr [])"
  by code_simp

lemma hundred_routable:
  "connect_gates (fst hundred_nets) (snd hundred_nets) (GateNo 1, GateNo 2)
     = Some (Inr [(0, 0, 1)])"
  by code_simp

lemma distances_replicate:
  assumes "connect_gates h b c = Some (Inr p)"
  shows "distances h b (replicate n c @ rest)
           = bind_res (distances h b rest) (\<lambda>ds. Some (Inr (replicate n (length p) @ ds)))"
proof (induction n)
  case 0
  show ?case
    by (cases "distances h b rest" rule: option.exhaust; simp)
       (rename_tac r, case_tac r; simp)
next
  case (Suc n)
  show ?case
    using assms Suc
    by (cases "distances h b rest" rule: option.exhaust; simp)
       (rename_tac r, case_tac r; simp)
qed

lemma hundred_distances:
  "distances (fst hundred_nets) (snd hundred_nets) (connections (snd hundred_nets))
     = Some (Inr (replicate 99 0 @ [1]))"
proof -
  have "distances (fst hundred_nets) (snd hundred_nets) [(GateNo 1, GateNo 2)] = Some (Inr [1])"
    by (simp add: hundred_routable)
  moreover have "connections (snd hundred_nets)
      = replicate 99 (GateNo 3, GateNo 4) @ [(GateNo 1, GateNo 2)]"
    by (simp add: hundred_nets_def)
  ultimately show ?thesis
    using distances_replicate [OF hundred_unroutable, of 99 "[(GateNo 1, GateNo 2)]"]
    by simp
qed

lemma hundred_ordering: "ordering hundred_start = [0 ..< 100]"
proof -
  let ?ds = "replicate 99 (0::nat) @ [1]"
  have len: "length (connections (snd hundred_nets)) = 100"
    by (simp add: hundred_nets_def)
  have "sorted (map snd (zip [0 ..< 100] ?ds))"
    by (simp add: sorted_append)
  then have "sort_key snd (zip [0 ..< 100] ?ds) = zip [0 ..< 100] ?ds"
    by (rule sort_key_id_if_sorted)
  then show ?thesis
    by (simp add: hundred_start_def initial_optimizer_def len Let_def)
qed

lemma hundred_skipped:
  assumes "i < 99"
  shows "route hundred_start i = Some (Inr hundred_start)"
proof -
  have fields: "completed_wires hundred_start = []" "self hundred_start = snd hundred_nets"
    "store hundred_start = fst hundred_nets"
    by (simp_all add: hundred_start_def initial_optimizer_def Let_def)
  have conn: "py_nth (connections (snd hundred_nets)) i = Inr (GateNo 3, GateNo 4)"
    using assms by (simp add: py_nth_def hundred_nets_def nth_append)
  have name: "py_nth (wire_names (snd hundred_nets)) i = Inr (wire_name (Suc i))"
    using assms by (simp add: py_nth_def wire_names_def hundred_nets_def)
  have "hundred_start\<lparr>store := fst hundred_nets\<rparr> = hundred_start"
    using fields(3) by simp
  then show ?thesis
    by (simp add: route_def fields conn name hundred_unroutable)
qed

lemma routing_pass_append:
  "routing_pass st (xs @ ys) = bind_res (routing_pass st xs) (\<lambda>st'. routing_pass st' ys)"
proof (induction xs arbitrary: st)
  case Nil
  show ?case by simp
next
  case (Cons i xs)
  show ?case
    using Cons
    by (cases "route st i" rule: option.exhaust; simp)
       (rename_tac r, case_tac r; simp)
qed

lemma routing_pass_skipped:
  "\<forall>i \<in> set xs. route st i = Some (Inr st) \<Longrightarrow> routing_pass st xs = Some (Inr st)"
  by (induction xs) simp_all

lemma hundred_routed_at_last: "route hundred_start 99 = Some (Inr hundred_routed)"
  by code_simp

lemma hundred_first_pass:
  "routing_pass hundred_start (ordering hundred_start) = Some (Inr hundred_routed)"
proof -
  have "routing_pass hundred_start [0 ..< 99] = Some (Inr hundred_start)"
    by (rule routing_pass_skipped) (simp add: hundred_skipped)
  moreover have "[0 ..< 100] = [0 ..< 99] @ [99::nat]"
    by (simp add: upt_rec [of 99 100] numeral_eq_Suc)
  ultimately show ?thesis
    by (simp only: hundred_ordering routing_pass_append)
       (simp add: hundred_routed_at_last)
qed

text \<open>
  C3. The claim: for any net that has been painted with its wire label and whose two
  gate counters have been decremented, undoing it at once sets exactly the cells that
  carry the label back to empty and increments both counters, so that grid and counters
  are as before the painting. On the board of five cells with a hundred nets, made by
  the constructor, the first pass of \<^verbatim>\<open>complete_board\<close> leaves the first ninety-nine
  nets unrouted and routes the net at index 99. Its label is \<^verbatim>\<open>'100'\<close>; the array holds
  strings of two characters, so the cell of its path is painted \<^verbatim>\<open>'10'\<close>. Undoing that net
  at once (\<^verbatim>\<open>delete_connection(99, '100')\<close>) restores the counters, but no cell equals
  \<^verbatim>\<open>'100'\<close> and the painted cell keeps \<^verbatim>\<open>'10'\<close>: the grid is not the grid before the
  painting.
\<close>

theorem undo_leaves_truncated_label:
  "new_circuit_board []
     [(GateNo 1, (0, 0, 0)), (GateNo 2, (0, 0, 2)), (GateNo 3, (0, 0, 3)), (GateNo 4, (0, 0, 4))]
     (replicate 99 (GateNo 3, GateNo 4) @ [(GateNo 1, GateNo 2)]) (1, 1, 5) = Inr hundred_nets
   \<and> hundred_start = initial_optimizer (fst hundred_nets) (snd hundred_nets) (replicate 99 0 @ [1])
   \<and> distances (fst hundred_nets) (snd hundred_nets) (connections (snd hundred_nets))
       = Some (Inr (replicate 99 0 @ [1]))
   \<and> routing_pass hundred_start [0 ..< 99] = Some (Inr hundred_start)
   \<and> store hundred_start ! board (self hundred_start)
       = [[[''GA'', ''__'', ''GA'', ''GA'', ''GA'']]]
   \<and> needs_connections (self hundred_start)
       = [(GateNo 3, 99), (GateNo 4, 99), (GateNo 1, 1), (GateNo 2, 1)]
   \<and> py_nth (connections (self hundred_start)) 99 = Inr (GateNo 1, GateNo 2)
   \<and> connect_gates (store hundred_start) (self hundred_start) (GateNo 1, GateNo 2)
       = Some (Inr [(0, 0, 1)])
   \<and> py_nth (wire_names (self hundred_start)) 99 = Inr ''100''
   \<and> route hundred_start 99 = Some (Inr hundred_routed)
   \<and> store hundred_routed ! board (self hundred_routed)
       = [[[''GA'', ''10'', ''GA'', ''GA'', ''GA'']]]
   \<and> needs_connections (self hundred_routed)
       = [(GateNo 3, 99), (GateNo 4, 99), (GateNo 1, 0), (GateNo 2, 0)]
   \<and> undo hundred_routed 99 = Inr hundred_undone
   \<and> store hundred_undone ! board (self hundred_undone)
       = [[[''GA'', ''10'', ''GA'', ''GA'', ''GA'']]]
   \<and> needs_connections (self hundred_undone)
       = [(GateNo 3, 99), (GateNo 4, 99), (GateNo 1, 1), (GateNo 2, 1)]"
proof -
  have 1: "hundred_start
      = initial_optimizer (fst hundred_nets) (snd hundred_nets) (replicate 99 0 @ [1])"
    by (simp add: hundred_start_def)
  have 2: "routing_pass hundred_start [0 ..< 99] = Some (Inr hundred_start)"
    by (rule routing_pass_skipped) (simp add: hundred_skipped)
  have 3: "store hundred_start ! board (self hundred_start)
       = [[[''GA'', ''__'', ''GA'', ''GA'', ''GA'']]]"
    by code_simp
  have 4: "needs_connections (self hundred_start)
       = [(GateNo 3, 99), (GateNo 4, 99), (GateNo 1, 1), (GateNo 2, 1)]"
    by code_simp
  have 5: "py_nth (connections (self hundred_start)) 99 = Inr (GateNo 1, GateNo 2)"
    by code_simp
  have 6: "connect_gates (store hundred_start) (self hundred_start) (GateNo 1, GateNo 2)
       = Some (Inr [(0, 0, 1)])"
    by code_simp
  have 7: "py_nth (wire_names (self hundred_start)) 99 = Inr ''100''"
    by code_simp
  have 8: "store hundred_routed ! board (self hundred_routed)
       = [[[''GA'', ''10'', ''GA'', ''GA'', ''GA'']]]"
    by code_simp
  have 9: "needs_connections (self hundred_routed)
       = [(GateNo 3, 99), (GateNo 4, 99), (GateNo 1, 0), (GateNo 2, 0)]"
    by code_simp
  have 10: "undo hundred_routed 99 = Inr hundred_undone"
    by code_simp
  have 11: "store hundred_undone ! board (self hundred_undone)
       = [[[''GA'', ''10'', ''GA'', ''GA'', ''GA'']]]"
    by code_simp
  have 12: "needs_connections (self hundred_undone)
       = [(GateNo 3, 99), (GateNo 4, 99), (GateNo 1, 1), (GateNo 2, 1)]"
    by code_simp
  from hundred_nets_built 1 hundred_distances 2 3 4 5 6 7 hundred_routed_at_last
    8 9 10 11 12
  show ?thesis by blast
qed

section \<open>The counters of the gates\<close>

lemma count_up_value:
  "counter_value (count_up d k) g = counter_value d g + (if g = k then 1 else 0)"
  by (simp add: count_up_def counter_value_def update_conv' split: option.splits)

lemma count_up_keys: "fst ` set (count_up d k) = insert k (fst ` set d)"
  by (simp add: count_up_def dom_update split: option.splits)

lemma degree_Cons:
  "degree (c # conns) g = (if fst c = g then 1 else 0) + (if snd c = g then 1 else 0) + degree conns g"
  by (simp add: degree_def)

lemma degree_Nil [simp]: "degree [] g = 0"
  by (simp add: degree_def)

lemma degree_append: "degree (xs @ ys) g = degree xs g + degree ys g"
  by (simp add: degree_def)

lemma fold_count_up:
  "counter_value (fold (\<lambda>c counts. count_up (count_up counts (fst c)) (snd c)) conns d) g
     = counter_value d g + int (degree conns g)
   \<and> fst ` set (fold (\<lambda>c counts. count_up (count_up counts (fst c)) (snd c)) conns d)
     = fst ` set d \<union> fst ` set conns \<union> snd ` set conns"
proof (induction conns arbitrary: d)
  case Nil
  then show ?case by simp
next
  case (Cons c conns)
  show ?case
    by (simp add: Cons.IH count_up_value count_up_keys degree_Cons)
qed

lemma gate_connectors_value:
  "counter_value (gate_connectors conns) g = int (degree conns g)"
  "fst ` set (gate_connectors conns) = endpoints conns"
  using fold_count_up [of conns "[]" g]
  by (simp_all add: gate_connectors_def counter_value_def endpoints_def)

lemma map_of_counter_value:
  "g \<in> fst ` set d \<Longrightarrow> map_of d g = Some (counter_value d g)"
  by (cases "map_of d g") (auto simp: counter_value_def map_of_eq_None_iff)

lemma counters_ok_initial:
  assumes "needs_connections b = gate_connectors (connections b)"
  shows "counters_ok (initial_optimizer h b ds)"
  using assms
  by (simp add: counters_ok_def initial_optimizer_def Let_def routed_nets_def
      gate_connectors_value map_of_counter_value)


lemma counters_ok_alt:
  "counters_ok st \<longleftrightarrow>
     distinct (completed_wires st)
     \<and> (\<forall>i\<in>set (completed_wires st). i < length (connections (self st)))
     \<and> fst ` set (needs_connections (self st)) = endpoints (connections (self st))
     \<and> (\<forall>g\<in>endpoints (connections (self st)).
           counter_value (needs_connections (self st)) g
             = int (degree (connections (self st)) g) - int (degree (routed_nets st) g))"
proof -
  have "map_of (needs_connections (self st)) g = Some v \<longleftrightarrow>
          counter_value (needs_connections (self st)) g = v"
    if "g \<in> fst ` set (needs_connections (self st))" for g v
    using map_of_counter_value [OF that] by auto
  then show ?thesis
    unfolding counters_ok_def by auto
qed

lemma counters_ok_updates [simp]:
  "counters_ok (st\<lparr>store := h\<rparr>) = counters_ok st"
  "counters_ok (st\<lparr>ordering := ord\<rparr>) = counters_ok st"
  "counters_ok (st\<lparr>iter := k\<rparr>) = counters_ok st"
  "counters_ok (st\<lparr>completed_previously := m\<rparr>) = counters_ok st"
  "counters_ok (save_improvement st) = counters_ok st"
  by (simp_all add: counters_ok_def routed_nets_def)

lemma dict_add_effect:
  assumes "dict_add d k delta = Inr d'"
  shows "counter_value d' g = counter_value d g + (if g = k then delta else 0)"
    and "fst ` set d' = fst ` set d"
    and "k \<in> fst ` set d"
proof -
  from assms obtain v where v: "map_of d k = Some v" and d': "d' = AList.update k (v + delta) d"
    by (auto simp: dict_add_def lookup_def bind_err_Inr_iff split: option.splits)
  from v show k: "k \<in> fst ` set d"
    by (auto dest!: map_of_SomeD intro: rev_image_eqI)
  show "counter_value d' g = counter_value d g + (if g = k then delta else 0)"
    using v by (simp add: d' counter_value_def update_conv')
  show "fst ` set d' = fst ` set d"
    using k by (auto simp: d' dom_update)
qed

lemma py_nth_Inr: "py_nth xs i = Inr x \<longleftrightarrow> i < length xs \<and> x = xs ! i"
  by (auto simp: py_nth_def)

lemma mark_routed_counters:
  assumes ok: "counters_ok st"
    and new: "i \<notin> set (completed_wires st)"
    and c: "py_nth (connections (self st)) i = Inr c"
    and marked: "mark_routed st i c = Inr st1"
  shows "counters_ok st1"
proof -
  from marked obtain nc1 nc2 where
    nc1: "dict_add (needs_connections (self st)) (fst c) (- 1) = Inr nc1"
    and nc2: "dict_add nc1 (snd c) (- 1) = Inr nc2"
    and st1: "st1 = st\<lparr>completed_wires := completed_wires st @ [i],
                       self := (self st)\<lparr>needs_connections := nc2\<rparr>\<rparr>"
    by (auto simp: mark_routed_def bind_err_Inr_iff)
  have routed: "routed_nets st1 = routed_nets st @ [c]"
    using c by (simp add: st1 routed_nets_def py_nth_Inr)
  have val: "counter_value nc2 g = counter_value (needs_connections (self st)) g
               - (if g = fst c then 1 else 0) - (if g = snd c then 1 else 0)" for g
    using dict_add_effect(1) [OF nc1, of g] dict_add_effect(1) [OF nc2, of g] by simp
  have keys: "fst ` set nc2 = fst ` set (needs_connections (self st))"
    using dict_add_effect(2) [OF nc1] dict_add_effect(2) [OF nc2] by simp
  have "\<forall>g\<in>endpoints (connections (self st)). counter_value nc2 g
          = int (degree (connections (self st)) g) - int (degree (routed_nets st1) g)"
    using ok unfolding counters_ok_alt by (simp add: val routed degree_append degree_Cons)
  with ok new c keys show ?thesis
    unfolding counters_ok_alt by (simp add: st1 py_nth_Inr)
qed

lemma route_counters:
  assumes ok: "counters_ok st" and r: "route st i = Some (Inr st')"
  shows "counters_ok st'"
proof (cases "i \<in> set (completed_wires st)")
  case True
  with r ok show ?thesis by (simp add: route_def)
next
  case False
  with r ok show ?thesis
    by (auto simp: route_def bind_res_Inr_iff split: if_splits
        intro: mark_routed_counters)
qed

lemma routing_pass_counters:
  "counters_ok st \<Longrightarrow> routing_pass st is = Some (Inr st') \<Longrightarrow> counters_ok st'"
proof (induction "is" arbitrary: st)
  case Nil
  then show ?case by simp
next
  case (Cons i rest)
  from Cons.prems(2) obtain st1 where
    "route st i = Some (Inr st1)" "routing_pass st1 rest = Some (Inr st')"
    by (auto simp: bind_res_Inr_iff)
  with Cons.IH route_counters [OF Cons.prems(1)] show ?case by blast
qed

lemma degree_remove1:
  "j \<in> set cw \<Longrightarrow>
     degree (map f (remove1 j cw)) g + degree [f j] g = degree (map f cw) g"
  by (induction cw) (auto simp: degree_Cons)

lemma undo_counters:
  assumes ok: "counters_ok st" and u: "undo st j = Inr st'"
  shows "counters_ok st'"
proof -
  from u obtain name hs cw where
    del: "delete_connection (store st) (self st) j name = Inr hs"
    and cw: "list_remove (completed_wires st) j = Inr cw"
    and st': "st' = st\<lparr>store := fst hs, self := snd hs, completed_wires := cw\<rparr>"
    by (auto simp: undo_def bind_err_Inr_iff)
  from del obtain c nc1 nc2 where
    c: "py_nth (connections (self st)) j = Inr c"
    and nc1: "dict_add (needs_connections (self st)) (fst c) 1 = Inr nc1"
    and nc2: "dict_add nc1 (snd c) 1 = Inr nc2"
    and hs: "snd hs = (self st)\<lparr>needs_connections := nc2, board := length (store st)\<rparr>"
    by (auto simp: delete_connection_def bind_err_Inr_iff)
  from cw have j: "j \<in> set (completed_wires st)" and cw': "cw = remove1 j (completed_wires st)"
    by (auto simp: list_remove_def split: if_splits)
  have routed: "int (degree (routed_nets st') g)
       = int (degree (routed_nets st) g) - (if g = fst c then 1 else 0) - (if g = snd c then 1 else 0)" for g
    using degree_remove1 [OF j, of "\<lambda>i. connections (self st) ! i" g] c
    by (auto simp: st' hs cw' routed_nets_def degree_Cons py_nth_Inr)
  have val: "counter_value nc2 g = counter_value (needs_connections (self st)) g
               + (if g = fst c then 1 else 0) + (if g = snd c then 1 else 0)" for g
    using dict_add_effect(1) [OF nc1, of g] dict_add_effect(1) [OF nc2, of g] by simp
  have keys: "fst ` set nc2 = fst ` set (needs_connections (self st))"
    using dict_add_effect(2) [OF nc1] dict_add_effect(2) [OF nc2] by simp
  have rest: "distinct cw" "\<forall>i\<in>set cw. i < length (connections (self st))"
    using ok by (auto simp: counters_ok_alt cw' dest: notin_set_remove1)
  have "\<forall>g\<in>endpoints (connections (self st)). counter_value nc2 g
          = int (degree (connections (self st)) g) - int (degree (routed_nets st') g)"
    using ok unfolding counters_ok_alt by (simp add: val routed)
  with ok rest keys show ?thesis
    unfolding counters_ok_alt by (simp add: st' hs)
qed

lemma undo_all_counters:
  "counters_ok st \<Longrightarrow> undo_all st js = Inr st' \<Longrightarrow> counters_ok st'"
proof (induction js arbitrary: st)
  case Nil
  then show ?case by simp
next
  case (Cons j rest)
  from Cons.prems(2) obtain st1 where
    "undo st j = Inr st1" "undo_all st1 rest = Inr st'"
    by (auto simp: bind_err_Inr_iff)
  with Cons.IH undo_counters [OF Cons.prems(1)] show ?case by blast
qed

lemma perturb_counters:
  assumes ok: "counters_ok st" and p: "perturb rnd st = Inr st'"
  shows "counters_ok st'"
proof -
  from p obtain to_delete st1 shuffled where
    u: "undo_all st to_delete = Inr st1"
    and st': "st' = st1\<lparr>ordering := shuffled, iter := iter st1 + 1\<rparr>"
    by (auto simp: perturb_def bind_err_Inr_iff)
  have "counters_ok st1" using ok u by (rule undo_all_counters)
  then show ?thesis by (simp add: st')
qed

lemma complete_loop_counters:
  assumes run: "complete_loop rnd0 st0 = Some r0"
  shows "counters_ok st0 \<longrightarrow> (\<forall>fin. r0 = Inr fin \<longrightarrow> counters_ok fin)"
proof (rule complete_loop.raw_induct
    [where P = "\<lambda>rnd st r. counters_ok st \<longrightarrow> (\<forall>fin. r = Inr fin \<longrightarrow> counters_ok fin)",
      OF _ run], goal_cases)
  case (1 loop rnd st r)
  note IH = 1(1) and body = 1(2)
  have "counters_ok fin" if ok: "counters_ok st" and r: "r = Inr fin" for fin
  proof (cases "length (connections (self st)) > length (completed_wires st)")
    case False
    with body r ok show ?thesis by simp
  next
    case more: True
    with body r obtain st1 where
      pass: "routing_pass st (ordering st) = Some (Inr st1)"
      by (auto split: option.splits sum.splits)
    have ok1: "counters_ok st1" using ok pass by (rule routing_pass_counters)
    let ?st2 = "save_improvement st1"
    have ok2: "counters_ok ?st2"
      using ok1 by simp
    show ?thesis
    proof (cases "length (completed_wires ?st2) = completed_previously ?st2")
      case stagnant: True
      show ?thesis
      proof (cases "iter ?st2 = max_iters")
        case True
        with body r more pass stagnant ok2 show ?thesis
          by (auto simp: Let_def)
      next
        case False
        with body r more pass stagnant obtain st3 where
          p: "perturb rnd ?st2 = Inr st3"
          and again: "loop rnd (st3\<lparr>completed_previously := length (completed_wires st3)\<rparr>)
                       = Some (Inr fin)"
          by (auto simp: Let_def split: sum.splits)
        have "counters_ok st3" using ok2 p by (rule perturb_counters)
        then have "counters_ok (st3\<lparr>completed_previously := length (completed_wires st3)\<rparr>)"
          by simp
        with IH [OF again] show ?thesis by simp
      qed
    next
      case False
      with body r more pass
      have again: "loop rnd (?st2\<lparr>completed_previously := length (completed_wires ?st2)\<rparr>)
                     = Some (Inr fin)"
        by (simp add: Let_def)
      have "counters_ok (?st2\<lparr>completed_previously := length (completed_wires ?st2)\<rparr>)"
        using ok2 by simp
      with IH [OF again] show ?thesis by simp
    qed
  qed
  then show ?case by blast
qed

lemma routed_le_degree:
  assumes d: "distinct cw" and r: "\<forall>i\<in>set cw. i < length xs"
  shows "length (filter P (map (\<lambda>i. xs ! i) cw)) \<le> length (filter P xs)"
proof -
  have "length (filter P (map (\<lambda>i. xs ! i) cw))
        = card {k. k < length cw \<and> P (xs ! (cw ! k))}"
    unfolding length_filter_conv_card by (rule arg_cong [where f = card]) auto
  also have "\<dots> \<le> card {i. i < length xs \<and> P (xs ! i)}"
  proof (rule card_inj_on_le [where f = "\<lambda>k. cw ! k"])
    show "inj_on (\<lambda>k. cw ! k) {k. k < length cw \<and> P (xs ! (cw ! k))}"
      using d by (auto simp: inj_on_def nth_eq_iff_index_eq)
    show "(\<lambda>k. cw ! k) ` {k. k < length cw \<and> P (xs ! (cw ! k))} \<subseteq> {i. i < length xs \<and> P (xs ! i)}"
      using r by auto
    show "finite {i. i < length xs \<and> P (xs ! i)}" by simp
  qed
  also have "\<dots> = length (filter P xs)"
    by (simp add: length_filter_conv_card)
  finally show ?thesis .
qed

lemma counters_ok_meaning:
  assumes ok: "counters_ok st" and c: "lookup (needs_connections (self st)) g = Inr c"
  shows "c = int (degree (connections (self st)) g) - int (degree (routed_nets st) g) \<and> 0 \<le> c"
proof -
  from c have m: "map_of (needs_connections (self st)) g = Some c"
    by (auto simp: lookup_def split: option.splits)
  then have "g \<in> set (map fst (needs_connections (self st)))"
    by (auto dest!: map_of_SomeD intro: rev_image_eqI)
  with ok have "g \<in> endpoints (connections (self st))"
    by (simp add: counters_ok_def)
  with ok m have eq: "c = int (degree (connections (self st)) g) - int (degree (routed_nets st) g)"
    by (simp add: counters_ok_def)
  have d: "distinct (completed_wires st)"
    and r: "\<forall>i\<in>set (completed_wires st). i < length (connections (self st))"
    using ok by (simp_all add: counters_ok_def)
  have "degree (routed_nets st) g \<le> degree (connections (self st)) g"
    unfolding degree_def routed_nets_def
    by (intro add_mono routed_le_degree d r)
  with eq show ?thesis by simp
qed

lemma build_neighbor_of_fields:
  "build_neighbor_of h b gs = Inr b' \<Longrightarrow>
     needs_connections b' = needs_connections b \<and> connections b' = connections b"
  by (induction gs arbitrary: b) (auto simp: bind_err_Inr_iff)

lemma build_free_connectors_fields:
  "build_free_connectors h b gs = Inr b' \<Longrightarrow>
     needs_connections b' = needs_connections b \<and> connections b' = connections b"
  by (induction gs arbitrary: b) (auto simp: bind_err_Inr_iff)

lemma new_circuit_board_counters:
  assumes "new_circuit_board h0 gs conns dims = Inr (h, b)"
  shows "needs_connections b = gate_connectors (connections b)"
  using assms
  by (auto simp: new_circuit_board_def reset_board_def bind_err_Inr_iff Let_def
      dest!: build_neighbor_of_fields build_free_connectors_fields)

text \<open>
  C9. The counters of a board made by the constructor satisfy the invariant when the
  optimizer starts; routing a net in a pass (the two decrements) and undoing a net (the
  two increments) preserve it, and so does the whole loop. Under the invariant every
  counter is the number of times its gate occurs as an endpoint in the connection list
  less the number of times it occurs as an endpoint of a routed net, and it is not
  negative. A net with two different gates counts once at each of them; a connection
  from a gate to itself counts twice, in the degree and when routed.
\<close>

theorem counters_track_routed_nets:
  "(new_circuit_board h0 gs conns dims = Inr (h, b) \<longrightarrow> counters_ok (initial_optimizer h b ds))
   \<and> (counters_ok sr \<and> route sr i = Some (Inr sr') \<longrightarrow> counters_ok sr')
   \<and> (counters_ok su \<and> undo su j = Inr su' \<longrightarrow> counters_ok su')
   \<and> (counters_ok sl \<and> complete_loop rnd sl = Some (Inr fin) \<longrightarrow> counters_ok fin)
   \<and> (counters_ok st \<and> lookup (needs_connections (self st)) g = Inr c \<longrightarrow>
        c = int (degree (connections (self st)) g) - int (degree (routed_nets st) g) \<and> 0 \<le> c)"
proof -
  have "counters_ok (initial_optimizer h b ds)"
    if "new_circuit_board h0 gs conns dims = Inr (h, b)"
    using that by (intro counters_ok_initial new_circuit_board_counters)
  then show ?thesis
    using route_counters [of sr i sr'] undo_counters [of su j su']
      complete_loop_counters [of rnd sl "Inr fin"] counters_ok_meaning [of st g c]
    by blast
qed

theorem counters_track_routed_nets_witness:
  "new_circuit_board [] [(GateNo 1, (0, 0, 0)), (GateNo 2, (0, 0, 2))]
     [(GateNo 1, GateNo 2)] (1, 1, 3) = Inr (fst line_board, snd line_board)
   \<and> counters_ok line_start
   \<and> route line_start 0 = Some (Inr line_routed) \<and> counters_ok line_routed
   \<and> undo line_routed 0 = Inr line_undone \<and> counters_ok line_undone
   \<and> complete_loop (\<lambda>k. []) line_start = Some (Inr line_final) \<and> counters_ok line_final
   \<and> lookup (needs_connections (self line_routed)) (GateNo 1) = Inr 0
   \<and> (0::int) = int (degree (connections (self line_routed)) (GateNo 1))
                 - int (degree (routed_nets line_routed) (GateNo 1))"
proof -
  have built: "new_circuit_board [] [(GateNo 1, (0, 0, 0)), (GateNo 2, (0, 0, 2))]
     [(GateNo 1, GateNo 2)] (1, 1, 3) = Inr (fst line_board, snd line_board)"
    by code_simp
  have routed: "route line_start 0 = Some (Inr line_routed)"
    by code_simp
  have undone: "undo line_routed 0 = Inr line_undone"
    by code_simp
  have run: "complete_loop (\<lambda>k. []) line_start = Some (Inr line_final)"
    by code_simp
  have counter: "lookup (needs_connections (self line_routed)) (GateNo 1) = Inr 0"
    by code_simp
  note inst = counters_track_routed_nets
    [of "[]" "[(GateNo 1, (0, 0, 0)), (GateNo 2, (0, 0, 2))]" "[(GateNo 1, GateNo 2)]"
      "(1, 1, 3)" "fst line_board" "snd line_board" "[1]"
      line_start 0 line_routed line_routed 0 line_undone line_start "\<lambda>k. []" line_final
      line_routed "GateNo 1" 0]
  have start: "counters_ok line_start"
    using inst built by (simp add: line_start_def)
  have 1: "counters_ok line_routed" using inst start routed by blast
  have 2: "counters_ok line_undone" using inst 1 undone by blast
  have 3: "counters_ok line_final" using inst start run by blast
  have 4: "(0::int) = int (degree (connections (self line_routed)) (GateNo 1))
                 - int (degree (routed_nets line_routed) (GateNo 1))"
    using inst 1 counter by blast
  from built start routed 1 undone 2 run 3 counter 4 show ?thesis by blast
qed

section \<open>The neighbors of a node\<close>

lemma probe_result:
  "probe g guard t acc = Inr ns \<Longrightarrow> ns = acc \<or> ns = acc @ [t]"
  by (auto simp: probe_def bind_err_Inr_iff split: if_splits)

lemma probe_set:
  "probe g guard t acc = Inr ns \<Longrightarrow> set ns \<subseteq> insert t (set acc)"
  by (auto dest: probe_result)

lemma six_directions_adjacent:
  assumes "six_directions g dims n = Inr ns"
  shows "\<forall>m\<in>set ns. adjacent n m"
proof -
  obtain bz bx "by" where dims: "dims = (bz, bx, by)" by (cases dims)
  obtain nz nx ny where n: "n = (nz, nx, ny)" by (cases n)
  from assms obtain n1 n2 n3 n4 n5 where
    p: "probe g (nz < bz - 1) (nz + 1, nx, ny) [] = Inr n1"
    "probe g (nz > 0 \<and> nz < bz) (nz - 1, nx, ny) n1 = Inr n2"
    "probe g (nx < bx - 1) (nz, nx + 1, ny) n2 = Inr n3"
    "probe g (nx > 0 \<and> nx < bx) (nz, nx - 1, ny) n3 = Inr n4"
    "probe g (ny < by - 1) (nz, nx, ny + 1) n4 = Inr n5"
    "probe g (ny > 0 \<and> ny < by) (nz, nx, ny - 1) n5 = Inr ns"
    unfolding six_directions_def dims n prod.case bind_err_Inr_iff by blast
  have "set ns \<subseteq> {(nz + 1, nx, ny), (nz - 1, nx, ny), (nz, nx + 1, ny),
      (nz, nx - 1, ny), (nz, nx, ny + 1), (nz, nx, ny - 1)}"
    using p(1) [THEN probe_set] p(2) [THEN probe_set] p(3) [THEN probe_set]
      p(4) [THEN probe_set] p(5) [THEN probe_set] p(6) [THEN probe_set]
    by (simp only: set_simps) blast
  moreover have "\<forall>m\<in>{(nz + 1, nx, ny), (nz - 1, nx, ny), (nz, nx + 1, ny),
      (nz, nx - 1, ny), (nz, nx, ny + 1), (nz, nx, ny - 1)}. adjacent (nz, nx, ny) m"
    by (simp add: adjacent_def)
  ultimately show ?thesis
    unfolding n by blast
qed

lemma drop_contended_subset:
  "drop_contended b i ns = Inr ns' \<Longrightarrow> set ns' \<subseteq> set ns"
proof (induction b i ns rule: drop_contended.induct)
  case (1 b i ns)
  show ?case
  proof (cases "i < length ns")
    case False
    with "1.prems" show ?thesis by (simp add: drop_contended.simps)
  next
    case True
    show ?thesis
    proof (cases "has_key (needs_connections b) (key_of_node (ns ! i))")
      case False
      with True "1.prems" "1.IH"(3) show ?thesis
        by (simp add: drop_contended.simps [of b i ns] Let_def)
    next
      case key: True
      with True "1.prems" obtain free where
        free: "check_free_connector b (ns ! i) = Inr free"
        and rest: "(if \<not> free then drop_contended b (Suc i) (remove1 (ns ! i) ns)
                    else drop_contended b (Suc i) ns) = Inr ns'"
        by (auto simp: drop_contended.simps [of b i ns] bind_err_Inr_iff Let_def)
      show ?thesis
      proof (cases free)
        case True
        with rest "1.IH"(2) [OF \<open>i < length ns\<close> refl key, of free] show ?thesis
          by simp
      next
        case False
        with rest "1.IH"(1) [OF \<open>i < length ns\<close> refl key, of free]
        have "set ns' \<subseteq> set (remove1 (ns ! i) ns)" by simp
        also have "\<dots> \<subseteq> set ns" by (rule set_remove1_subset)
        finally show ?thesis .
      qed
    qed
  qed
qed

lemma node_neighbors_adjacent:
  "node_neighbors h b n = Inr ns \<Longrightarrow> m \<in> set ns \<Longrightarrow> adjacent n m"
  by (auto simp: node_neighbors_def bind_err_Inr_iff
      dest!: six_directions_adjacent drop_contended_subset)

lemma enumerated_at_adjacent: "enumerated_at h b p n \<Longrightarrow> adjacent p n"
  by (auto simp: enumerated_at_def split: sum.splits dest: node_neighbors_adjacent)

lemma adjacent_sym: "adjacent a b \<Longrightarrow> adjacent b a"
  by (auto simp: adjacent_def split: prod.splits)

lemma adjacent_neq: "adjacent a b \<Longrightarrow> a \<noteq> b"
  by (auto simp: adjacent_def split: prod.splits)


section \<open>Invariants of the search\<close>

lemma fold_min_mem:
  "fold (\<lambda>kv best. if snd kv < snd best then kv else best) rest kv \<in> set (kv # rest)"
  by (induction rest arbitrary: kv) auto

lemma py_min_key_mem:
  assumes "py_min_key kvs = Inr c"
  shows "c \<in> fst ` set kvs"
proof (cases kvs)
  case Nil
  with assms show ?thesis by (simp add: py_min_key_def)
next
  case (Cons kv rest)
  with assms have "c = fst (fold (\<lambda>kv best. if snd kv < snd best then kv else best) rest kv)"
    by (simp add: py_min_key_def)
  with fold_min_mem [of rest kv] show ?thesis
    unfolding Cons by (intro image_eqI)
qed

lemma select_current_mem:
  "select_current st = Inr c \<Longrightarrow> c \<in> open_set st \<and> c \<in> fst ` set (f_score st)"
  by (auto simp: select_current_def dest!: py_min_key_mem)

lemma relax_cases:
  assumes "relax goal cur nb st = Inr st'"
  obtains (closed) "st' = st"
  | (kept) "nb \<notin> closed_set st" "st' = st\<lparr>open_set := insert nb (open_set st)\<rparr>"
  | (better) t where "nb \<notin> closed_set st"
      "st' = st\<lparr>open_set := insert nb (open_set st),
                 came_from := AList.update nb cur (came_from st),
                 g_score := AList.update nb t (g_score st),
                 f_score := AList.update nb (t + manhattan nb goal) (f_score st)\<rparr>"
  using assms
  by (auto simp: relax_def Let_def bind_err_Inr_iff split: if_splits)

lemma relax_all_preserves:
  assumes step: "\<And>nb st st'. nb \<in> set ns \<Longrightarrow> Q st \<Longrightarrow> relax goal cur nb st = Inr st' \<Longrightarrow> Q st'"
    and "Q st" and "relax_all goal cur ns st = Inr st'"
  shows "Q st'"
  using assms
proof (induction ns arbitrary: st)
  case Nil
  then show ?case by simp
next
  case (Cons nb rest)
  from Cons.prems(3) obtain st1 where
    1: "relax goal cur nb st = Inr st1" and 2: "relax_all goal cur rest st1 = Inr st'"
    by (auto simp: bind_err_Inr_iff)
  have 3: "Q st1" using Cons.prems(1) [of nb st st1] Cons.prems(2) 1 by simp
  have "\<And>m s s'. m \<in> set rest \<Longrightarrow> Q s \<Longrightarrow> relax goal cur m s = Inr s' \<Longrightarrow> Q s'"
    using Cons.prems(1) by (meson list.set_intros(2))
  then show ?case using 3 2 by (rule Cons.IH)
qed

lemma relaxing_parts:
  assumes "relaxing h b start cur st"
  shows "map_of (came_from st) start = None"
    and "\<forall>n p. map_of (came_from st) n = Some p \<longrightarrow>
           enumerated_at h b p n \<and> (p = start \<or> map_of (came_from st) p \<noteq> None)"
    and "\<forall>n. n \<in> fst ` set (f_score st) \<longrightarrow> n = start \<or> map_of (came_from st) n \<noteq> None"
    and "start \<in> closed_set st" and "cur \<in> closed_set st"
    and "cur = start \<or> map_of (came_from st) cur \<noteq> None"
  using assms unfolding relaxing_def search_inv_def by blast+

lemma relaxingI:
  assumes "map_of (came_from st) start = None"
    and "\<forall>n p. map_of (came_from st) n = Some p \<longrightarrow>
           enumerated_at h b p n \<and> (p = start \<or> map_of (came_from st) p \<noteq> None)"
    and "\<forall>n. n \<in> fst ` set (f_score st) \<longrightarrow> n = start \<or> map_of (came_from st) n \<noteq> None"
    and "start \<in> closed_set st" and "cur \<in> closed_set st"
    and "cur = start \<or> map_of (came_from st) cur \<noteq> None"
  shows "relaxing h b start cur st"
  using assms unfolding relaxing_def search_inv_def by blast

lemma relax_relaxing:
  assumes rel: "relaxing h b start cur st"
    and nb: "enumerated_at h b cur nb"
    and r: "relax goal cur nb st = Inr st'"
  shows "relaxing h b start cur st'"
  using r
proof (cases rule: relax_cases)
  case closed
  with rel show ?thesis by simp
next
  case kept
  with rel show ?thesis by (simp add: relaxing_def search_inv_def)
next
  case (better t)
  note old = relaxing_parts [OF rel]
  from old(4,5) better(1) have neq: "nb \<noteq> start" "nb \<noteq> cur"
    by blast+
  have cf: "map_of (came_from st') n = (if n = nb then Some cur else map_of (came_from st) n)"
    for n
    by (simp add: better(2) update_conv')
  have fs: "fst ` set (f_score st') = insert nb (fst ` set (f_score st))"
    by (simp add: better(2) dom_update)
  have cl: "closed_set st' = closed_set st"
    by (simp add: better(2))
  show ?thesis
  proof (rule relaxingI)
    show "map_of (came_from st') start = None"
      using old(1) neq by (simp add: cf)
    show "cur = start \<or> map_of (came_from st') cur \<noteq> None"
      using old(6) neq by (simp add: cf)
    show "start \<in> closed_set st'" "cur \<in> closed_set st'"
      using old(4,5) by (simp_all add: cl)
    show "\<forall>n p. map_of (came_from st') n = Some p \<longrightarrow>
           enumerated_at h b p n \<and> (p = start \<or> map_of (came_from st') p \<noteq> None)"
    proof (intro allI impI)
      fix n p
      assume np: "map_of (came_from st') n = Some p"
      show "enumerated_at h b p n \<and> (p = start \<or> map_of (came_from st') p \<noteq> None)"
      proof (cases "n = nb")
        case True
        with np have "p = cur" by (simp add: cf)
        with True nb old(6) neq show ?thesis
          by (simp add: cf del: split_paired_All split_paired_Ex)
      next
        case False
        with np have "map_of (came_from st) n = Some p" by (simp add: cf)
        with old(2) have "enumerated_at h b p n"
          and "p = start \<or> map_of (came_from st) p \<noteq> None" by blast+
        then show ?thesis by (simp add: cf del: split_paired_All split_paired_Ex)
      qed
    qed
    show "\<forall>n. n \<in> fst ` set (f_score st') \<longrightarrow> n = start \<or> map_of (came_from st') n \<noteq> None"
    proof (intro allI impI)
      fix n
      assume "n \<in> fst ` set (f_score st')"
      then have "n = nb \<or> n \<in> fst ` set (f_score st)" unfolding fs by blast
      then show "n = start \<or> map_of (came_from st') n \<noteq> None"
        using old(3) by (auto simp: cf simp del: split_paired_All split_paired_Ex)
    qed
  qed
qed

lemma expand_search_inv:
  assumes inv: "search_inv h b start st"
    and cur: "cur \<in> fst ` set (f_score st)"
    and e: "expand h b goal cur st = Inr st'"
  shows "search_inv h b start st'"
proof -
  let ?st1 = "st\<lparr>open_set := open_set st - {cur}, closed_set := insert cur (closed_set st)\<rparr>"
  from e obtain ns where ns: "node_neighbors h b cur = Inr ns"
    and r: "relax_all goal cur ns ?st1 = Inr st'"
    by (auto simp: expand_def bind_err_Inr_iff)
  have parts: "map_of (came_from st) start = None"
    "\<forall>n p. map_of (came_from st) n = Some p \<longrightarrow>
           enumerated_at h b p n \<and> (p = start \<or> map_of (came_from st) p \<noteq> None)"
    "\<forall>n. n \<in> fst ` set (f_score st) \<longrightarrow> n = start \<or> map_of (came_from st) n \<noteq> None"
    "start \<in> closed_set st \<or> fst ` set (f_score st) \<subseteq> {start}"
    using inv unfolding search_inv_def by blast+
  have "start \<in> closed_set st \<or> cur = start"
    using parts(4) cur by blast
  moreover have "cur = start \<or> map_of (came_from st) cur \<noteq> None"
    using parts(3) cur by blast
  ultimately have start: "relaxing h b start cur ?st1"
    using parts(1,2,3) by (intro relaxingI) (simp_all del: split_paired_All split_paired_Ex, blast+)
  have "relaxing h b start cur st'"
  proof (rule relax_all_preserves [where Q = "relaxing h b start cur", OF _ start r])
    fix nb s s'
    assume "nb \<in> set ns" "relaxing h b start cur s" "relax goal cur nb s = Inr s'"
    then show "relaxing h b start cur s'"
      using ns by (intro relax_relaxing [of h b start cur s nb goal s']) (simp_all add: enumerated_at_def)
  qed
  then show ?thesis by (simp add: relaxing_def)
qed

lemma search_inv_initial: "search_inv h b start (initial_state start goal)"
  by (simp add: search_inv_def initial_state_def)

lemma walk_back_snoc:
  "walk_back h b (xs @ [x]) \<longleftrightarrow> walk_back h b xs \<and> (xs = [] \<or> enumerated_at h b x (last xs))"
  by (induction xs rule: walk_back.induct) auto

lemma reconstruct_loop_walk:
  assumes run: "reconstruct_loop cf0 cur0 tp0 = Some res0"
    and cf: "\<forall>n p. map_of cf0 n = Some p \<longrightarrow>
               enumerated_at h b p n \<and> (p = start \<or> map_of cf0 p \<noteq> None)"
    and tp: "tp0 \<noteq> []" "last tp0 = cur0" "walk_back h b tp0"
    and cur: "cur0 = start \<or> map_of cf0 cur0 \<noteq> None"
  shows "res0 \<noteq> [] \<and> hd res0 = hd tp0 \<and> last res0 = start \<and> walk_back h b res0"
proof -
  let ?good = "\<lambda>cf. \<forall>n p. map_of cf n = Some p \<longrightarrow>
               enumerated_at h b p n \<and> (p = start \<or> map_of cf p \<noteq> None)"
  let ?pre = "\<lambda>cf cur tp. ?good cf \<and> tp \<noteq> [] \<and> last tp = cur \<and> walk_back h b tp
           \<and> (cur = start \<or> map_of cf cur \<noteq> None)"
  let ?post = "\<lambda>tp res. res \<noteq> [] \<and> hd res = hd tp \<and> last res = start \<and> walk_back h b res"
  have "?pre cf0 cur0 tp0 \<longrightarrow> ?post tp0 res0"
  proof (rule reconstruct_loop.raw_induct
      [where P = "\<lambda>cf cur tp res. ?pre cf cur tp \<longrightarrow> ?post tp res", OF _ run], goal_cases)
    case (1 loop cf cur tp res)
    note IH = 1(1) and body = 1(2)
    show ?case
    proof
      assume pre: "?pre cf cur tp"
      show "?post tp res"
      proof (cases "map_of cf cur")
        case None
        with body pre show ?thesis by simp
      next
        case (Some prev)
        with body have again: "loop cf prev (tp @ [prev]) = Some res" by simp
        from pre Some have prev: "enumerated_at h b prev cur"
          "prev = start \<or> map_of cf prev \<noteq> None"
          by blast+
        have "?pre cf prev (tp @ [prev])"
          using pre prev by (simp add: walk_back_snoc)
        with IH [OF again] have "?post (tp @ [prev]) res" by blast
        with pre show ?thesis by simp
      qed
    qed
  qed
  with cf tp cur show ?thesis by blast
qed

lemma search_loop_walk:
  assumes run: "search_loop h0 b0 goal0 st0 = Some r0"
  shows "search_inv h0 b0 start st0 \<longrightarrow>
    (\<forall>p. r0 = Inr (Path p) \<longrightarrow> p \<noteq> [] \<and> hd p = goal0 \<and> last p = start \<and> walk_back h0 b0 p)"
proof (rule search_loop.raw_induct
    [where P = "\<lambda>h b goal st r. search_inv h b start st \<longrightarrow>
      (\<forall>p. r = Inr (Path p) \<longrightarrow> p \<noteq> [] \<and> hd p = goal \<and> last p = start \<and> walk_back h b p)",
      OF _ run], goal_cases)
  case (1 loop h b goal st r)
  note IH = 1(1) and body = 1(2)
  have "p \<noteq> [] \<and> hd p = goal \<and> last p = start \<and> walk_back h b p"
    if inv: "search_inv h b start st" and r: "r = Inr (Path p)" for p
  proof -
    from body r have nonempty: "open_set st \<noteq> {}" by (auto split: if_splits)
    with body r obtain cur where cur: "select_current st = Inr cur"
      by (auto split: sum.splits)
    then have scored: "cur \<in> fst ` set (f_score st)" by (simp add: select_current_mem)
    show ?thesis
    proof (cases "cur = goal")
      case True
      with body r nonempty cur have rec: "reconstruct_loop (came_from st) goal [goal] = Some p"
        by (auto simp: reconstruct_path_def)
      have "goal = start \<or> map_of (came_from st) goal \<noteq> None"
        using inv scored True unfolding search_inv_def by blast
      moreover have "\<forall>n p. map_of (came_from st) n = Some p \<longrightarrow>
               enumerated_at h b p n \<and> (p = start \<or> map_of (came_from st) p \<noteq> None)"
        using inv unfolding search_inv_def by blast
      ultimately show ?thesis
        using reconstruct_loop_walk [OF rec, of h b start] by simp
    next
      case False
      with body r nonempty cur obtain st' where
        e: "expand h b goal cur st = Inr st'" and again: "loop h b goal st' = Some (Inr (Path p))"
        by (auto split: sum.splits)
      have "search_inv h b start st'" using inv scored e by (rule expand_search_inv)
      with IH [OF again] show ?thesis by simp
    qed
  qed
  then show ?case by blast
qed

lemma search_walk:
  assumes "search start goal h b = Some (Inr (Path p))"
  shows "p \<noteq> []" "hd p = goal" "last p = start" "walk_back h b p"
  using search_loop_walk [OF assms [unfolded search_def], of start] search_inv_initial [of h b start goal]
  by simp_all

lemma walk_back_contiguous: "walk_back h b p \<Longrightarrow> contiguous p"
  by (induction p rule: contiguous.induct)
     (auto dest: enumerated_at_adjacent adjacent_sym)

lemma open_board_built: "new_circuit_board [] [] [] (1, 2, 2) = Inr open_board"
  by code_simp

lemma walled_board_built:
  "new_circuit_board [] [(GateNo 1, (0, 0, 1))] [] (1, 1, 3) = Inr walled_board"
  by code_simp

section \<open>What the search returns\<close>



text \<open>
  C7. In a path that the search returns, any two consecutive nodes differ by exactly one
  unit along exactly one axis.
\<close>

theorem returned_path_contiguous:
  assumes "search start goal h b = Some (Inr (Path p))"
  shows "contiguous p"
  using search_walk(4) [OF assms] by (rule walk_back_contiguous)

theorem returned_path_contiguous_witness:
  "search (0, 0, 0) (0, 1, 1) (fst open_board) (snd open_board)
     = Some (Inr (Path [(0, 1, 1), (0, 1, 0), (0, 0, 0)]))
   \<and> contiguous [(0, 1, 1), (0, 1, 0), (0, 0, 0)]"
proof -
  have found: "search (0, 0, 0) (0, 1, 1) (fst open_board) (snd open_board)
       = Some (Inr (Path [(0, 1, 1), (0, 1, 0), (0, 0, 0)]))"
    by code_simp
  from returned_path_contiguous [OF found] found show ?thesis by simp
qed

section \<open>The pair router\<close>

lemma connect_inner_fold:
  "map (\<lambda>g. search s g h b) gs = map (\<lambda>r. Some (Inr r)) rs \<Longrightarrow>
     connect_inner h b s gs best = Some (Inr (fold (\<lambda>r best. keep_best best r) rs best))"
proof (induction gs arbitrary: rs best)
  case Nil
  then show ?case by simp
next
  case (Cons g gs)
  then obtain r rs' where rs: "rs = r # rs'" by (cases rs) auto
  with Cons.prems have "search s g h b = Some (Inr r)"
    and "map (\<lambda>g. search s g h b) gs = map (\<lambda>r. Some (Inr r)) rs'"
    by simp_all
  with Cons.IH [of rs' "keep_best best r"] show ?case by (simp add: rs)
qed

lemma connect_outer_fold:
  "all_searches h b n1 n2 = map (\<lambda>r. Some (Inr r)) rs \<Longrightarrow>
     connect_outer h b n1 n2 best = Some (Inr (fold (\<lambda>r best. keep_best best r) rs best))"
proof (induction n1 arbitrary: rs best)
  case Nil
  then show ?case by (simp add: all_searches_def)
next
  case (Cons s n1)
  from Cons.prems have
    "map (\<lambda>g. search s g h b) n2 @ all_searches h b n1 n2 = map (\<lambda>r. Some (Inr r)) rs"
    by (simp add: all_searches_def comp_def)
  then obtain rs1 rs2 where rs: "rs = rs1 @ rs2"
    and 1: "map (\<lambda>g. search s g h b) n2 = map (\<lambda>r. Some (Inr r)) rs1"
    and 2: "all_searches h b n1 n2 = map (\<lambda>r. Some (Inr r)) rs2"
    by (auto simp: append_eq_map_conv)
  show ?case
    using connect_inner_fold [OF 1, of best] Cons.IH [OF 2] by (simp add: rs)
qed

lemma find_append_cases:
  "find P (xs @ ys) = (case find P xs of None \<Rightarrow> find P ys | Some x \<Rightarrow> Some x)"
  by (induction xs) simp_all

lemma shortest_first_Nil [simp]: "shortest_first [] = []"
  by (simp add: shortest_first_def)

lemma shortest_first_find:
  assumes "ps \<noteq> []"
  shows "find (\<lambda>p. \<forall>q\<in>set ps. length p \<le> length q) ps = Some (shortest_first ps)"
proof -
  have "length ` set ps \<noteq> {}" "finite (length ` set ps)" using assms by simp_all
  then have "Min (length ` set ps) \<in> length ` set ps" by (rule Min_in [rotated])
  then obtain m where m: "m \<in> set ps" "length m = Min (length ` set ps)" by auto
  then have "\<forall>q\<in>set ps. length m \<le> length q" by simp
  with m(1) have "find (\<lambda>p. \<forall>q\<in>set ps. length p \<le> length q) ps \<noteq> None"
    unfolding find_None_iff by blast
  then show ?thesis by (auto simp: shortest_first_def)
qed

lemma shortest_first_snoc:
  assumes "ps \<noteq> []"
  shows "shortest_first (ps @ [p]) =
           (if length p < length (shortest_first ps) then p else shortest_first ps)"
proof -
  let ?m = "shortest_first ps"
  let ?P = "\<lambda>xs p. \<forall>q\<in>set xs. length p \<le> length q"
  from shortest_first_find [OF assms] obtain i where
    i: "i < length ps" "?P ps (ps ! i)" "?m = ps ! i" "\<forall>j<i. \<not> ?P ps (ps ! j)"
    unfolding find_Some_iff by blast
  show ?thesis
  proof (cases "length p < length ?m")
    case True
    have "find (?P (ps @ [p])) ps = None"
      unfolding find_None_iff using True i(2,3) by (auto simp: not_le) 
    moreover have "?P (ps @ [p]) p"
      using True i(2,3) by auto
    ultimately show ?thesis
      using True by (simp add: shortest_first_def find_append_cases)
  next
    case False
    have "find (?P (ps @ [p])) ps = Some ?m"
      unfolding find_Some_iff
    proof (intro exI [of _ i] conjI)
      show "i < length ps" by (rule i(1))
      show "?P (ps @ [p]) (ps ! i)" using i(2,3) False by auto
      show "?m = ps ! i" by (rule i(3))
      show "\<forall>j<i. \<not> ?P (ps @ [p]) (ps ! j)" using i(4) by auto
    qed
    then show ?thesis
      using False by (simp add: shortest_first_def find_append_cases)
  qed
qed

lemma shortest_first_mem: "ps \<noteq> [] \<Longrightarrow> shortest_first ps \<in> set ps"
  using shortest_first_find [of ps] by (auto simp: find_Some_iff)

lemma fold_keep_best:
  assumes "\<forall>p\<in>set (found_paths rs). p \<noteq> []"
  shows "fold (\<lambda>r best. keep_best best r) rs [] = shortest_first (found_paths rs)"
  using assms
proof (induction rs rule: rev_induct)
  case Nil
  then show ?case by (simp add: found_paths_def)
next
  case (snoc r rs)
  let ?ps = "found_paths rs"
  from snoc have IH: "fold (\<lambda>r best. keep_best best r) rs [] = shortest_first ?ps"
    by (simp add: found_paths_def)
  show ?case
  proof (cases r)
    case NoPath
    with IH show ?thesis by (simp add: found_paths_def keep_best_def)
  next
    case (Path p)
    then have fp: "found_paths (rs @ [r]) = ?ps @ [p]" by (simp add: found_paths_def)
    show ?thesis
    proof (cases "?ps = []")
      case True
      have "shortest_first [p] = p" by (simp add: shortest_first_def)
      with IH True show ?thesis
        unfolding fp by (simp add: Path keep_best_def)
    next
      case False
      then have "shortest_first ?ps \<in> set ?ps" by (rule shortest_first_mem)
      with snoc.prems have "shortest_first ?ps \<noteq> []" by (auto simp: fp)
      with IH False show ?thesis
        unfolding fp by (simp add: Path keep_best_def shortest_first_snoc)
    qed
  qed
qed

lemma all_searches_nonempty:
  assumes "all_searches h b n1 n2 = map (\<lambda>r. Some (Inr r)) rs"
  shows "\<forall>p\<in>set (found_paths rs). p \<noteq> []"
proof
  fix p
  assume "p \<in> set (found_paths rs)"
  then have "Path p \<in> set rs"
    by (auto simp: found_paths_def split: search_result.splits)
  then have "Some (Inr (Path p)) \<in> set (all_searches h b n1 n2)"
    unfolding assms by simp
  then obtain s g where "search s g h b = Some (Inr (Path p))"
    by (auto simp: all_searches_def)
  then show "p \<noteq> []" by (rule search_walk(1))
qed

text \<open>
  C4. When the searches for all pairs of a vacant neighbor of the first gate and a
  vacant neighbor of the second gate return, the pair router returns the shortest of
  the paths found, the first found among those of equal length in the order in which
  the neighbor of the first gate varies slowest, and the empty list when no search
  found a path.
\<close>

theorem connect_gates_shortest_first:
  assumes "gate_neighbors h b ga = Inr n1"
    and "gate_neighbors h b gb = Inr n2"
    and "all_searches h b n1 n2 = map (\<lambda>r. Some (Inr r)) rs"
  shows "connect_gates h b (ga, gb) = Some (Inr (shortest_first (found_paths rs)))"
  using assms(1,2) connect_outer_fold [OF assms(3), of "[]"]
    fold_keep_best [OF all_searches_nonempty [OF assms(3)]]
  by (simp add: connect_gates_def)

lemma corner_board_built:
  "new_circuit_board [] [(GateNo 1, (0, 0, 0)), (GateNo 2, (0, 1, 1))]
     [(GateNo 1, GateNo 2)] (1, 2, 2) = Inr corner_board"
  by code_simp

theorem connect_gates_shortest_first_witness:
  "gate_neighbors (fst corner_board) (snd corner_board) (GateNo 1) = Inr [(0, 1, 0), (0, 0, 1)]
   \<and> gate_neighbors (fst corner_board) (snd corner_board) (GateNo 2)
       = Inr [(0, 0, 1), (0, 1, 0)]
   \<and> all_searches (fst corner_board) (snd corner_board) [(0, 1, 0), (0, 0, 1)]
         [(0, 0, 1), (0, 1, 0)]
       = map (\<lambda>r. Some (Inr r)) [NoPath, Path [(0, 1, 0)], Path [(0, 0, 1)], NoPath]
   \<and> shortest_first (found_paths [NoPath, Path [(0, 1, 0)], Path [(0, 0, 1)], NoPath])
       = [(0, 1, 0)]
   \<and> connect_gates (fst corner_board) (snd corner_board) (GateNo 1, GateNo 2)
       = Some (Inr [(0, 1, 0)])"
proof -
  have 1: "gate_neighbors (fst corner_board) (snd corner_board) (GateNo 1)
      = Inr [(0, 1, 0), (0, 0, 1)]"
    by code_simp
  have 2: "gate_neighbors (fst corner_board) (snd corner_board) (GateNo 2)
       = Inr [(0, 0, 1), (0, 1, 0)]"
    by code_simp
  have 3: "all_searches (fst corner_board) (snd corner_board) [(0, 1, 0), (0, 0, 1)]
         [(0, 0, 1), (0, 1, 0)]
       = map (\<lambda>r. Some (Inr r)) [NoPath, Path [(0, 1, 0)], Path [(0, 0, 1)], NoPath]"
    by code_simp
  have 4: "shortest_first (found_paths [NoPath, Path [(0, 1, 0)], Path [(0, 0, 1)], NoPath])
       = [(0, 1, 0)]"
    by code_simp
  from connect_gates_shortest_first [OF 1 2 3] 1 2 3 4 show ?thesis
    by simp
qed

section \<open>The final board\<close>











lemma snapshot_kept_previously [simp]:
  "snapshot_kept (st\<lparr>completed_previously := m\<rparr>) = snapshot_kept st"
  by (auto simp: snapshot_kept_def split: solution.splits)










section \<open>The contention test on numbered gates\<close>

lemma numbered_gates_no_node_key:
  assumes "numbered_gates b"
  shows "\<not> has_key (needs_connections b) (key_of_node n)"
proof -
  obtain z x y where n: "n = (z, x, y)" by (cases n)
  have "Coord z x y \<notin> fst ` set (needs_connections b)"
    using assms by (fastforce simp: numbered_gates_def list_all_iff)
  then show ?thesis
    by (simp add: has_key_def key_of_node_def n map_of_eq_None_iff)
qed

lemma drop_contended_numbered:
  assumes "numbered_gates b"
  shows "drop_contended b i ns = Inr ns"
proof (induction "length ns - i" arbitrary: i)
  case 0
  then show ?case by (simp add: drop_contended.simps [of b i ns])
next
  case (Suc d)
  then have "i < length ns" "d = length ns - Suc i" by simp_all
  with Suc.hyps(1) [of "Suc i"] numbered_gates_no_node_key [OF assms] show ?case
    by (simp add: drop_contended.simps [of b i ns] Let_def)
qed

lemma node_neighbors_numbered:
  "numbered_gates b \<Longrightarrow>
     node_neighbors h b n = six_directions (h ! board b) (dimensions b) n"
  by (cases "six_directions (h ! board b) (dimensions b) n")
     (simp_all add: node_neighbors_def drop_contended_numbered)

section \<open>The search along a corridor\<close>

lemma along_inj [simp]: "along i = along j \<longleftrightarrow> i = j"
  by (simp add: along_def)

lemma along_image [simp]: "along j \<in> along ` S \<longleftrightarrow> j \<in> S"
  by auto

lemma cell_corridor:
  "j < n \<Longrightarrow> cell [[replicate n ''__'']] (0, 0, int j) = Inr ''__''"
  by (simp add: cell_def np_index_def np_pos_def)

lemma node_neighbors_corridor:
  assumes "Suc k < n"
  shows "node_neighbors (fst (corridor n)) (snd (corridor n)) (along k)
           = Inr (along (Suc k) # (if 0 < k then [along (k - 1)] else []))"
proof -
  have numbered: "numbered_gates (snd (corridor n))"
    by (simp add: numbered_gates_def corridor_def)
  have up: "cell [[replicate n ''__'']] (0, 0, int k + 1) = Inr ''__''"
    using cell_corridor [of "Suc k" n] assms by (simp add: add.commute)
  have down: "cell [[replicate n ''__'']] (0, 0, int k - 1) = Inr ''__''" if "0 < k"
    using cell_corridor [of "k - 1" n] assms that by (simp add: of_nat_diff)
  have six: "six_directions [[replicate n ''__'']] (1, 1, int n) (0, 0, int k)
          = Inr (along (Suc k) # (if 0 < k then [along (k - 1)] else []))"
    using assms up down
    by (simp add: six_directions_def probe_def along_def of_nat_diff add.commute)
  have "node_neighbors (fst (corridor n)) (snd (corridor n)) (along k)
          = six_directions [[replicate n ''__'']] (1, 1, int n) (0, 0, int k)"
    unfolding node_neighbors_numbered [OF numbered] by (simp add: corridor_def along_def)
  with six show ?thesis by simp
qed


lemma update_absent:
  "k \<notin> fst ` set al \<Longrightarrow> AList.update k v al = al @ [(k, v)]"
  by (induction al) auto

lemma keys_along:
  "fst ` set (map (\<lambda>i. (along i, f i)) [0..<m]) = along ` {..<m}"
  by (auto simp: image_iff)

lemma map_of_along:
  "map_of (map (\<lambda>i. (along i, f i)) [0..<m]) (along j) = (if j < m then Some (f j) else None)"
  by (induction m) (auto simp: map_add_def less_Suc_eq split: option.splits)

lemma filter_along:
  "filter (\<lambda>kv. fst kv = along k) (map (\<lambda>i. (along i, f i)) [0..<m])
     = (if k < m then [(along k, f k)] else [])"
  by (induction m) (auto simp: less_Suc_eq)

lemma select_current_corridor:
  "select_current (corridor_state goal k) = Inr (along k)"
  by (simp add: select_current_def corridor_state_def filter_along py_min_key_def
      del: upt_Suc)

lemma manhattan_along: "manhattan (along i) (along j) = \<bar>int j - int i\<bar>"
  by (simp add: manhattan_def along_def)

lemma expand_corridor:
  assumes n: "Suc k < n" and g: "Suc k \<le> goal" and low: "Suc k < 1000"
  shows "expand (fst (corridor n)) (snd (corridor n)) (along goal) (along k)
           (corridor_state goal k) = Inr (corridor_state goal (Suc k))"
proof -
  let ?st1 = "(corridor_state goal k)\<lparr>open_set := open_set (corridor_state goal k) - {along k},
      closed_set := insert (along k) (closed_set (corridor_state goal k))\<rparr>"
  have st1: "?st1 = \<lparr>closed_set = along ` {..<Suc k}, open_set = {},
      came_from = map (\<lambda>i. (along (Suc i), along i)) [0..<k],
      g_score = map (\<lambda>i. (along i, int i)) [0..<Suc k],
      f_score = map (\<lambda>i. (along i, int goal)) [0..<Suc k]\<rparr>"
    by (simp add: corridor_state_def lessThan_Suc)
  have cf_keys: "along (Suc k) \<notin> fst ` set (map (\<lambda>i. (along (Suc i), along i)) [0..<k])"
    by (auto simp: image_iff)
  have g_keys: "along (Suc k) \<notin> fst ` set (map (\<lambda>i. (along i, int i)) [0..<Suc k])"
    unfolding keys_along by (simp add: image_iff)
  have f_keys: "along (Suc k) \<notin> fst ` set (map (\<lambda>i. (along i, int goal)) [0..<Suc k])"
    unfolding keys_along by (simp add: image_iff)
  have forward: "relax (along goal) (along k) (along (Suc k)) ?st1
      = Inr (corridor_state goal (Suc k))"
    unfolding st1 using g low
    by (simp add: relax_def lookup_def map_of_along manhattan_along Let_def
        update_absent [OF cf_keys] update_absent [OF g_keys] update_absent [OF f_keys]
        corridor_state_def del: upt_Suc)
      (simp add: of_nat_diff)
  have backward: "relax (along goal) (along k) (along (k - 1)) (corridor_state goal (Suc k))
      = Inr (corridor_state goal (Suc k))"
  proof -
    have "along (k - 1) \<in> closed_set (corridor_state goal (Suc k))"
      by (simp add: corridor_state_def)
    then show ?thesis by (simp only: relax_def if_True)
  qed
  show ?thesis
    unfolding expand_def node_neighbors_corridor [OF n]
    using forward backward by simp
qed

lemma search_loop_corridor_step:
  assumes "Suc k < n" and "Suc k \<le> goal" and "Suc k < 1000"
  shows "search_loop (fst (corridor n)) (snd (corridor n)) (along goal) (corridor_state goal k)
         = search_loop (fst (corridor n)) (snd (corridor n)) (along goal)
             (corridor_state goal (Suc k))"
proof -
  have "open_set (corridor_state goal k) \<noteq> {}" by (simp add: corridor_state_def)
  moreover have "along k \<noteq> along goal" using assms by simp
  ultimately show ?thesis
    by (subst search_loop.simps)
      (simp add: select_current_corridor expand_corridor [OF assms])
qed

lemma search_loop_corridor_steps:
  assumes "k < n" and "k \<le> goal" and "k < 1000"
  shows "search_loop (fst (corridor n)) (snd (corridor n)) (along goal) (corridor_state goal 0)
         = search_loop (fst (corridor n)) (snd (corridor n)) (along goal)
             (corridor_state goal k)"
  using assms
proof (induction k)
  case 0
  show ?case by simp
next
  case (Suc k)
  then show ?case using search_loop_corridor_step [of k n goal] by simp
qed


lemma expand_corridor_999:
  assumes n: "1000 < n"
  shows "expand (fst (corridor n)) (snd (corridor n)) (along goal) (along 999)
           (corridor_state goal 999) = Inr (corridor_stuck goal)"
proof -
  let ?st1 = "(corridor_state goal 999)\<lparr>
      open_set := open_set (corridor_state goal 999) - {along 999},
      closed_set := insert (along 999) (closed_set (corridor_state goal 999))\<rparr>"
  have closed: "closed_set ?st1 = along ` {..<1000}"
    using lessThan_Suc [of 999] by (simp add: corridor_state_def)
  have st1: "?st1\<lparr>open_set := insert (along 1000) (open_set ?st1)\<rparr> = corridor_stuck goal"
    using lessThan_Suc [of 999]
    by (simp add: corridor_stuck_def corridor_state_def del: upt_Suc)
  have g: "map_of (g_score (corridor_state goal 999)) (along j)
      = (if j < Suc 999 then Some (int j) else None)" for j
    unfolding corridor_state_def search_state.simps by (rule map_of_along)
  have "relax (along goal) (along 999) (along 1000) ?st1
      = Inr (?st1\<lparr>open_set := insert (along 1000) (open_set ?st1)\<rparr>)"
    unfolding relax_def Let_def closed
    by (simp add: g lookup_def manhattan_along)
  then have forward: "relax (along goal) (along 999) (along 1000) ?st1 = Inr (corridor_stuck goal)"
    unfolding st1 .
  have "along 998 \<in> closed_set (corridor_stuck goal)"
    by (simp add: corridor_stuck_def)
  then have backward: "relax (along goal) (along 999) (along 998) (corridor_stuck goal)
      = Inr (corridor_stuck goal)"
    by (simp only: relax_def if_True)
  have "node_neighbors (fst (corridor n)) (snd (corridor n)) (along 999)
      = Inr [along 1000, along 998]"
    using node_neighbors_corridor [of 999 n] n by simp
  then show ?thesis
    unfolding expand_def using forward backward by simp
qed

lemma select_current_stuck: "select_current (corridor_stuck goal) = Inl ValueError"
proof -
  have "filter (\<lambda>kv. fst kv = along 1000) (map (\<lambda>i. (along i, int goal)) [0..<Suc 999]) = []"
    unfolding filter_along by simp
  then show ?thesis
    by (simp add: select_current_def corridor_stuck_def corridor_state_def py_min_key_def
        del: upt_Suc)
qed

lemma search_corridor_raises:
  assumes far: "1000 \<le> goal" and inside: "goal < n"
  shows "search (along 0) (along goal) (fst (corridor n)) (snd (corridor n))
           = Some (Inl ValueError)"
proof -
  let ?loop = "search_loop (fst (corridor n)) (snd (corridor n)) (along goal)"
  have "initial_state (along 0) (along goal) = corridor_state goal 0"
    by (simp add: initial_state_def corridor_state_def manhattan_along)
  then have "search (along 0) (along goal) (fst (corridor n)) (snd (corridor n))
      = ?loop (corridor_state goal 0)"
    by (simp add: search_def)
  also have "\<dots> = ?loop (corridor_state goal 999)"
    using far inside by (intro search_loop_corridor_steps) simp_all
  also have "\<dots> = ?loop (corridor_stuck goal)"
  proof -
    have "open_set (corridor_state goal 999) \<noteq> {}" by (simp add: corridor_state_def)
    moreover have "along 999 \<noteq> along goal" using far by simp
    moreover have "1000 < n" using far inside by simp
    ultimately show ?thesis
      by (subst search_loop.simps)
        (simp add: select_current_corridor expand_corridor_999)
  qed
  also have "\<dots> = Some (Inl ValueError)"
  proof -
    have "open_set (corridor_stuck goal) \<noteq> {}" by (simp add: corridor_stuck_def)
    then show ?thesis
      by (subst search_loop.simps) (simp add: select_current_stuck)
  qed
  finally show ?thesis .
qed


lemma corridor_built: "new_circuit_board [] [] [] (1, 1, int n) = Inr (corridor n)"
  by (simp add: new_circuit_board_def reset_board_def np_full_def gate_connectors_def
      corridor_def Let_def)

section \<open>The default of 1000 for a g-score that is not recorded\<close>

text \<open>
  C5. The claim: between two cells joined by an unobstructed straight line of empty
  cells the search succeeds, with a path of as many steps as their Manhattan distance.
  On the board of 1001 empty cells in a row, made by the constructor, the first and
  the last cell are 1000 steps apart on such a line, and the search from the one to the
  other raises \<^verbatim>\<open>ValueError\<close>: the cell at 1000 steps is put into the open set but gets no
  f-score, because its tentative g-score is not below the default 1000 of
  \<^verbatim>\<open>g_score.get(neighbor, 1000)\<close>, and \<^verbatim>\<open>min\<close> then finds no candidate.
\<close>

theorem straight_line_of_1000_steps_raises:
  "new_circuit_board [] [] [] (1, 1, 1001) = Inr (corridor 1001)
   \<and> fst (corridor 1001) ! board (snd (corridor 1001)) = [[replicate 1001 ''__'']]
   \<and> manhattan (0, 0, 0) (0, 0, 1000) = 1000
   \<and> search (0, 0, 0) (0, 0, 1000) (fst (corridor 1001)) (snd (corridor 1001))
       = Some (Inl ValueError)"
proof -
  have "new_circuit_board [] [] [] (1, 1, 1001) = Inr (corridor 1001)"
    using corridor_built [of 1001] by simp
  moreover have "fst (corridor 1001) ! board (snd (corridor 1001)) = [[replicate 1001 ''__'']]"
    by (simp add: corridor_def)
  moreover have "manhattan (0, 0, 0) (0, 0, 1000) = 1000"
    by (simp add: manhattan_def)
  moreover have "search (0, 0, 0) (0, 0, 1000) (fst (corridor 1001)) (snd (corridor 1001))
       = Some (Inl ValueError)"
    using search_corridor_raises [of 1000 1001] by (simp add: along_def)
  ultimately show ?thesis by blast
qed

text \<open>
  C8. The claim: during expansion a vacant neighbor that is not closed is skipped only
  when a g-score recorded for it is not improved, and never when none is recorded. The
  search on the corridor of 1001 cells reaches the state in which the cell at index
  999 is selected. Its neighbor at index 1000 is vacant, enumerated, not closed and has
  no recorded g-score; the expansion puts it into the open set and skips it: no
  back-pointer, g-score or f-score is recorded for it, since its tentative g-score 1000
  is not below the default 1000.
\<close>

theorem unrecorded_neighbor_is_skipped:
  "search (along 0) (along 1000) (fst (corridor 1001)) (snd (corridor 1001))
     = search_loop (fst (corridor 1001)) (snd (corridor 1001)) (along 1000)
         (corridor_state 1000 999)
   \<and> select_current (corridor_state 1000 999) = Inr (along 999)
   \<and> node_neighbors (fst (corridor 1001)) (snd (corridor 1001)) (along 999)
       = Inr [along 1000, along 998]
   \<and> along 1000 \<notin> insert (along 999) (closed_set (corridor_state 1000 999))
   \<and> map_of (g_score (corridor_state 1000 999)) (along 1000) = None
   \<and> lookup (g_score (corridor_state 1000 999)) (along 999) = Inr 999
   \<and> manhattan (along 999) (along 1000) = 1
   \<and> expand (fst (corridor 1001)) (snd (corridor 1001)) (along 1000) (along 999)
         (corridor_state 1000 999) = Inr (corridor_stuck 1000)
   \<and> along 1000 \<in> open_set (corridor_stuck 1000)
   \<and> map_of (came_from (corridor_stuck 1000)) (along 1000) = None
   \<and> map_of (g_score (corridor_stuck 1000)) (along 1000) = None
   \<and> map_of (f_score (corridor_stuck 1000)) (along 1000) = None"
proof -
  have g: "map_of (g_score (corridor_state 1000 999)) (along j)
      = (if j < Suc 999 then Some (int j) else None)" for j
    unfolding corridor_state_def search_state.simps by (rule map_of_along)
  have f: "map_of (f_score (corridor_state 1000 999)) (along j)
      = (if j < Suc 999 then Some 1000 else None)" for j
    unfolding corridor_state_def search_state.simps
    using map_of_along [of "\<lambda>i. int 1000" "Suc 999" j] by simp
  have cf: "along 1000 \<notin> fst ` set (came_from (corridor_state 1000 999))"
    by (auto simp: corridor_state_def image_iff)
  have 1: "search (along 0) (along 1000) (fst (corridor 1001)) (snd (corridor 1001))
     = search_loop (fst (corridor 1001)) (snd (corridor 1001)) (along 1000)
         (corridor_state 1000 999)"
    using search_loop_corridor_steps [of 999 1001 1000]
    by (simp add: search_def initial_state_def corridor_state_def manhattan_along)
  have 2: "select_current (corridor_state 1000 999) = Inr (along 999)"
    by (rule select_current_corridor)
  have 3: "node_neighbors (fst (corridor 1001)) (snd (corridor 1001)) (along 999)
       = Inr [along 1000, along 998]"
    using node_neighbors_corridor [of 999 1001] by simp
  have 4: "along 1000 \<notin> insert (along 999) (closed_set (corridor_state 1000 999))"
    by (simp add: corridor_state_def)
  have 5: "map_of (g_score (corridor_state 1000 999)) (along 1000) = None"
    by (simp add: g)
  have 6: "lookup (g_score (corridor_state 1000 999)) (along 999) = Inr 999"
    by (simp add: lookup_def g)
  have 7: "manhattan (along 999) (along 1000) = 1"
    by (simp add: manhattan_along)
  have 8: "expand (fst (corridor 1001)) (snd (corridor 1001)) (along 1000) (along 999)
         (corridor_state 1000 999) = Inr (corridor_stuck 1000)"
    by (rule expand_corridor_999) simp
  have 9: "along 1000 \<in> open_set (corridor_stuck 1000)"
    by (simp add: corridor_stuck_def)
  have 10: "map_of (came_from (corridor_stuck 1000)) (along 1000) = None"
    using cf by (simp add: corridor_stuck_def map_of_eq_None_iff)
  have 11: "map_of (g_score (corridor_stuck 1000)) (along 1000) = None"
    by (simp add: corridor_stuck_def g)
  have 12: "map_of (f_score (corridor_stuck 1000)) (along 1000) = None"
    by (simp add: corridor_stuck_def f)
  from 1 2 3 4 5 6 7 8 9 10 11 12 show ?thesis by blast
qed

section \<open>The neighbors of a node inside the board\<close>

lemma cell_in_bounds:
  assumes "shaped dims g" and "in_bounds dims n"
  shows "\<exists>v. cell g n = Inr v"
proof -
  obtain bz bx "by" where dims: "dims = (bz, bx, by)" by (cases dims)
  obtain z x y where n: "n = (z, x, y)" by (cases n)
  from assms have z: "0 \<le> z" "z < int (length g)"
    by (simp_all add: shaped_def in_bounds_def dims n)
  then have "g ! nat z \<in> set g" by simp
  with assms have x: "0 \<le> x" "x < int (length (g ! nat z))"
    and rows: "list_all (\<lambda>row. int (length row) = by) (g ! nat z)"
    by (simp_all add: shaped_def in_bounds_def dims n list_all_iff)
  then have "g ! nat z ! nat x \<in> set (g ! nat z)" by simp
  with rows assms have y: "0 \<le> y" "y < int (length (g ! nat z ! nat x))"
    by (simp_all add: in_bounds_def dims n list_all_iff)
  from z x y show ?thesis
    by (simp add: cell_def n np_index_def np_pos_def)
qed

lemma probe_vacant:
  assumes "shaped dims g" and "guard \<longleftrightarrow> in_bounds dims t"
  shows "probe g guard t acc = Inr (acc @ filter (vacant dims g) [t])"
proof (cases guard)
  case False
  with assms show ?thesis by (simp add: probe_def vacant_def)
next
  case True
  with assms cell_in_bounds [of dims g t] obtain v where "cell g t = Inr v" by auto
  with True assms show ?thesis by (simp add: probe_def vacant_def)
qed

lemma six_directions_vacant:
  assumes sh: "shaped dims g" and n: "in_bounds dims n"
  shows "\<exists>ns. six_directions g dims n = Inr ns
           \<and> set ns = {m \<in> set (six_candidates n). vacant dims g m}"
proof -
  obtain bz bx "by" where dims: "dims = (bz, bx, by)" by (cases dims)
  obtain nz nx ny where nn: "n = (nz, nx, ny)" by (cases n)
  from n have b: "0 \<le> nz" "nz < bz" "0 \<le> nx" "nx < bx" "0 \<le> ny" "ny < by"
    by (simp_all add: in_bounds_def dims nn)
  have 1: "(nz < bz - 1) \<longleftrightarrow> in_bounds dims (nz + 1, nx, ny)"
    and 2: "(nz > 0 \<and> nz < bz) \<longleftrightarrow> in_bounds dims (nz - 1, nx, ny)"
    and 3: "(nx < bx - 1) \<longleftrightarrow> in_bounds dims (nz, nx + 1, ny)"
    and 4: "(nx > 0 \<and> nx < bx) \<longleftrightarrow> in_bounds dims (nz, nx - 1, ny)"
    and 5: "(ny < by - 1) \<longleftrightarrow> in_bounds dims (nz, nx, ny + 1)"
    and 6: "(ny > 0 \<and> ny < by) \<longleftrightarrow> in_bounds dims (nz, nx, ny - 1)"
    using b by (auto simp: in_bounds_def dims)
  have "six_directions g dims n =
      Inr (([] @ filter (vacant dims g) [(nz + 1, nx, ny)])
           @ filter (vacant dims g) [(nz - 1, nx, ny)]
           @ filter (vacant dims g) [(nz, nx + 1, ny)]
           @ filter (vacant dims g) [(nz, nx - 1, ny)]
           @ filter (vacant dims g) [(nz, nx, ny + 1)]
           @ filter (vacant dims g) [(nz, nx, ny - 1)])"
    unfolding six_directions_def dims nn prod.case
    unfolding dims [symmetric]
    by (simp only: probe_vacant [OF sh 1] probe_vacant [OF sh 2] probe_vacant [OF sh 3]
        probe_vacant [OF sh 4] probe_vacant [OF sh 5] probe_vacant [OF sh 6]
        bind_err_simps append_assoc)
  then show ?thesis
    by (auto simp: six_candidates_def nn)
qed

lemma node_neighbors_vacant:
  assumes "numbered_gates b" and "shaped (dimensions b) (h ! board b)"
    and "in_bounds (dimensions b) n"
  shows "\<exists>ns. node_neighbors h b n = Inr ns
           \<and> set ns = {m \<in> set (six_candidates n). vacant (dimensions b) (h ! board b) m}"
  using six_directions_vacant [OF assms(2,3)] node_neighbors_numbered [OF assms(1)]
  by simp

lemma six_candidates_adjacent: "m \<in> set (six_candidates n) \<longleftrightarrow> adjacent n m"
  by (cases n; cases m) (auto simp: six_candidates_def adjacent_def)

section \<open>The node that min() selects\<close>

lemma fold_min_le_init:
  "snd (fold (\<lambda>kv best. if snd kv < snd best then kv else best) rest kv) \<le> (snd kv :: int)"
proof (induction rest arbitrary: kv)
  case Nil
  show ?case by simp
next
  case (Cons x rest)
  show ?case
    using Cons [of x] Cons [of kv] by (cases "snd x < snd kv") simp_all
qed

lemma fold_min_le:
  "x \<in> set (kv # rest) \<Longrightarrow>
     snd (fold (\<lambda>kv best. if snd kv < snd best then kv else best) rest kv) \<le> (snd x :: int)"
proof (induction rest arbitrary: kv)
  case Nil
  then show ?case by simp
next
  case (Cons y rest)
  let ?f = "\<lambda>kv best. if snd kv < snd best then (kv :: 'a \<times> int) else best"
  show ?case
  proof (cases "snd y < snd kv")
    case True
    from Cons.prems consider "x = kv" | "x \<in> set (y # rest)" by auto
    then show ?thesis
    proof cases
      case 1
      with True fold_min_le_init [of rest y] show ?thesis by simp
    next
      case 2
      with True Cons.IH [of y] show ?thesis by simp
    qed
  next
    case False
    from Cons.prems consider "x = y" | "x \<in> set (kv # rest)" by auto
    then show ?thesis
    proof cases
      case 1
      with False fold_min_le_init [of rest kv] show ?thesis by simp
    next
      case 2
      with False Cons.IH [of kv] show ?thesis by simp
    qed
  qed
qed

lemma py_min_key_min:
  assumes "kvs \<noteq> []"
  shows "\<exists>c v. py_min_key kvs = Inr c \<and> (c, v) \<in> set kvs \<and> (\<forall>x \<in> set kvs. v \<le> snd x)"
proof -
  from assms obtain kv rest where kvs: "kvs = kv # rest" by (cases kvs) auto
  let ?m = "fold (\<lambda>kv best. if snd kv < snd best then kv else best) rest kv"
  have "py_min_key kvs = Inr (fst ?m)" by (simp add: py_min_key_def kvs)
  moreover have "(fst ?m, snd ?m) \<in> set kvs"
    using fold_min_mem [of rest kv] by (simp add: kvs)
  moreover have "\<forall>x \<in> set kvs. snd ?m \<le> snd x"
    using fold_min_le [of _ kv rest] by (simp add: kvs)
  ultimately show ?thesis by blast
qed

lemma select_current_min:
  assumes "distinct (map fst (f_score st))"
    and "n \<in> open_set st" and "map_of (f_score st) n = Some w"
  shows "\<exists>c v. select_current st = Inr c \<and> c \<in> open_set st
            \<and> map_of (f_score st) c = Some v \<and> v \<le> w"
proof -
  let ?kvs = "filter (\<lambda>kv. fst kv \<in> open_set st) (f_score st)"
  from assms(3) have "(n, w) \<in> set (f_score st)" by (rule map_of_SomeD)
  with assms(2) have mem: "(n, w) \<in> set ?kvs" by simp
  then have "?kvs \<noteq> []" by (cases ?kvs) simp_all
  from py_min_key_min [OF this] obtain c v where
    c: "py_min_key ?kvs = Inr c" "(c, v) \<in> set ?kvs" "\<forall>x \<in> set ?kvs. v \<le> snd x"
    by blast
  from c(2) assms(1) have "map_of (f_score st) c = Some v" "c \<in> open_set st"
    by simp_all
  moreover from c(3) [rule_format, OF mem] have "v \<le> w" by simp
  ultimately show ?thesis using c(1) by (simp add: select_current_def)
qed

section \<open>Distances\<close>

lemma manhattan_adjacent: "adjacent a b \<Longrightarrow> manhattan a b = 1"
  by (cases a; cases b) (auto simp: adjacent_def manhattan_def)

lemma manhattan_triangle: "manhattan a c \<le> manhattan a b + manhattan b c"
  by (cases a; cases b; cases c) (simp add: manhattan_def)

lemma manhattan_nonneg: "0 \<le> manhattan a b"
  by (cases a; cases b) (simp add: manhattan_def)

lemma manhattan_same [simp]: "manhattan a a = 0"
  by (cases a) (simp add: manhattan_def)

lemma unit_cases:
  assumes "d \<in> set (six_candidates (0, 0, 0))"
  obtains "d = (1, 0, 0)" | "d = (-1, 0, 0)" | "d = (0, 1, 0)" | "d = (0, -1, 0)"
    | "d = (0, 0, 1)" | "d = (0, 0, -1)"
  using assms by (auto simp: six_candidates_def)

lemma manhattan_line:
  assumes "d \<in> set (six_candidates (0, 0, 0))"
  shows "manhattan (line_cell s d i) (line_cell s d j) = \<bar>int j - int i\<bar>"
  using assms by (cases s; elim unit_cases) (simp_all add: line_cell_def manhattan_def)

lemma line_cell_0 [simp]: "line_cell s d 0 = s"
  by (cases s; cases d) (simp add: line_cell_def)

lemma line_cell_inj:
  assumes "d \<in> set (six_candidates (0, 0, 0))"
  shows "line_cell s d i = line_cell s d j \<longleftrightarrow> i = j"
  using assms by (cases s; elim unit_cases) (auto simp: line_cell_def)

lemma line_cell_adjacent:
  assumes "d \<in> set (six_candidates (0, 0, 0))"
  shows "adjacent (line_cell s d i) (line_cell s d (Suc i))"
  using assms by (cases s; elim unit_cases) (simp_all add: line_cell_def adjacent_def)

lemma finite_in_bounds: "finite {n. in_bounds dims n}"
proof -
  obtain bz bx "by" where dims: "dims = (bz, bx, by)" by (cases dims)
  have "{n. in_bounds dims n} \<subseteq> {0..<bz} \<times> {0..<bx} \<times> {0..<by}"
    by (auto simp: in_bounds_def dims)
  then show ?thesis by (rule finite_subset) simp
qed

section \<open>Relaxing one neighbor\<close>

lemma searchingD:
  assumes "searching dims start goal st"
  shows "distinct (map fst (f_score st))"
    and "\<And>n. map_of (f_score st) n
            = map_option (\<lambda>g. g + manhattan n goal) (map_of (g_score st) n)"
    and "\<And>n g. map_of (g_score st) n = Some g \<Longrightarrow> manhattan start n \<le> g"
    and "\<And>n p. map_of (came_from st) n = Some p \<Longrightarrow> p \<in> closed_set st"
    and "\<And>n p. map_of (came_from st) n = Some p \<Longrightarrow>
            \<exists>g. map_of (g_score st) p = Some g \<and> map_of (g_score st) n = Some (g + 1)"
    and "\<And>n g. map_of (g_score st) n = Some g \<Longrightarrow> map_of (came_from st) n = None \<Longrightarrow> g = 0"
    and "open_set st \<inter> closed_set st = {}"
    and "\<And>n. n \<in> open_set st \<Longrightarrow> in_bounds dims n"
    and "\<And>n. n \<in> closed_set st \<Longrightarrow> in_bounds dims n"
  using assms unfolding searching_def by blast+

lemma searching_opened:
  assumes inv: "searching dims start goal st"
    and nb: "nb \<notin> closed_set st" "in_bounds dims nb"
  shows "searching dims start goal (st\<lparr>open_set := insert nb (open_set st)\<rparr>)"
  using inv nb unfolding searching_def by (simp del: split_paired_All split_paired_Ex)

lemma searching_better:
  assumes inv: "searching dims start goal st"
    and cur: "cur \<in> closed_set st" "map_of (g_score st) cur = Some gc"
    and adj: "adjacent cur nb"
    and nb: "nb \<notin> closed_set st" "in_bounds dims nb"
  shows "searching dims start goal
           (st\<lparr>open_set := insert nb (open_set st),
               came_from := AList.update nb cur (came_from st),
               g_score := AList.update nb (gc + 1) (g_score st),
               f_score := AList.update nb (gc + 1 + manhattan nb goal) (f_score st)\<rparr>)"
    (is "searching _ _ _ ?st'")
proof -
  note D = searchingD [OF inv]
  have neq: "cur \<noteq> nb" using cur(1) nb(1) by auto
  have g': "\<And>n. map_of (g_score ?st') n = (if n = nb then Some (gc + 1) else map_of (g_score st) n)"
    by (simp add: update_conv')
  have f': "\<And>n. map_of (f_score ?st') n
              = (if n = nb then Some (gc + 1 + manhattan nb goal) else map_of (f_score st) n)"
    by (simp add: update_conv')
  have c': "\<And>n. map_of (came_from ?st') n = (if n = nb then Some cur else map_of (came_from st) n)"
    by (simp add: update_conv')
  have sets: "closed_set ?st' = closed_set st" "open_set ?st' = insert nb (open_set st)"
    by simp_all
  have 1: "distinct (map fst (f_score ?st'))"
    using D(1) by (simp add: distinct_update)
  have 2: "\<forall>n. map_of (f_score ?st') n
            = map_option (\<lambda>g. g + manhattan n goal) (map_of (g_score ?st') n)"
    unfolding f' g' using D(2) by simp
  have low: "manhattan start nb \<le> gc + 1"
    using manhattan_triangle [of start nb cur] D(3) [OF cur(2)] manhattan_adjacent [OF adj]
    by simp
  have 3: "\<forall>n g. map_of (g_score ?st') n = Some g \<longrightarrow> manhattan start n \<le> g"
    unfolding g' using D(3) low by simp
  have 4: "\<forall>n p. map_of (came_from ?st') n = Some p \<longrightarrow>
            p \<in> closed_set ?st'
            \<and> (\<exists>g. map_of (g_score ?st') p = Some g \<and> map_of (g_score ?st') n = Some (g + 1))"
  proof (intro allI impI)
    fix n p assume np: "map_of (came_from ?st') n = Some p"
    show "p \<in> closed_set ?st'
            \<and> (\<exists>g. map_of (g_score ?st') p = Some g \<and> map_of (g_score ?st') n = Some (g + 1))"
    proof (cases "n = nb")
      case True
      with np have "p = cur" unfolding c' by simp
      with True cur neq show ?thesis unfolding g' sets by simp
    next
      case False
      with np have old: "map_of (came_from st) n = Some p" unfolding c' by simp
      from D(4) [OF old] nb(1) have "p \<noteq> nb" by auto
      with False D(4) [OF old] D(5) [OF old] show ?thesis unfolding g' sets by simp
    qed
  qed
  have 5: "\<forall>n g. map_of (g_score ?st') n = Some g \<longrightarrow> map_of (came_from ?st') n = None \<longrightarrow> g = 0"
    unfolding g' c' using D(6) by simp
  have 6: "open_set ?st' \<inter> closed_set ?st' = {}"
    unfolding sets using D(7) nb(1) by simp
  have 7: "\<forall>n. n \<in> open_set ?st' \<union> closed_set ?st' \<longrightarrow> in_bounds dims n"
    unfolding sets using D(8,9) nb(2) by auto
  show ?thesis
    unfolding searching_def using 1 2 3 4 5 6 7 by blast
qed

lemma relax_searching:
  assumes inv: "searching dims start goal st"
    and cur: "cur \<in> closed_set st" "map_of (g_score st) cur = Some gc"
    and adj: "adjacent cur nb"
    and nb: "in_bounds dims nb"
  shows "\<exists>st'. relax goal cur nb st = Inr st'
           \<and> searching dims start goal st'
           \<and> closed_set st' = closed_set st
           \<and> open_set st \<subseteq> open_set st'
           \<and> map_of (g_score st') cur = Some gc
           \<and> (\<forall>n. map_of (g_score st) n = Some (manhattan start n)
                 \<longrightarrow> map_of (g_score st') n = Some (manhattan start n))
           \<and> (nb \<notin> closed_set st \<longrightarrow> nb \<in> open_set st'
               \<and> (gc + 1 = manhattan start nb \<longrightarrow> gc + 1 < 1000
                    \<longrightarrow> map_of (g_score st') nb = Some (gc + 1)))"
proof (cases "nb \<in> closed_set st")
  case True
  then have "relax goal cur nb st = Inr st" by (simp add: relax_def)
  with inv cur True show ?thesis by simp
next
  case False
  note D = searchingD [OF inv]
  have neq: "cur \<noteq> nb" using cur(1) False by auto
  have low: "manhattan start nb \<le> gc + 1"
    using manhattan_triangle [of start nb cur] D(3) [OF cur(2)] manhattan_adjacent [OF adj]
    by simp
  let ?old = "case map_of (g_score st) nb of None \<Rightarrow> 1000 | Some g \<Rightarrow> g"
  show ?thesis
  proof (cases "gc + 1 \<ge> ?old")
    case True
    let ?st' = "st\<lparr>open_set := insert nb (open_set st)\<rparr>"
    have run: "relax goal cur nb st = Inr ?st'"
      using False True cur(2)
      by (simp add: relax_def lookup_def Let_def manhattan_adjacent [OF adj])
    have tight: "gc + 1 = manhattan start nb \<longrightarrow> gc + 1 < 1000
                    \<longrightarrow> map_of (g_score st) nb = Some (gc + 1)"
    proof (intro impI)
      assume eq: "gc + 1 = manhattan start nb" and small: "gc + 1 < 1000"
      from True small obtain g where g: "map_of (g_score st) nb = Some g" "g \<le> gc + 1"
        by (cases "map_of (g_score st) nb") auto
      from D(3) [OF g(1)] eq g(2) have "g = gc + 1" by simp
      with g(1) show "map_of (g_score st) nb = Some (gc + 1)" by simp
    qed
    from searching_opened [OF inv False nb] run cur tight show ?thesis
      by (simp del: split_paired_All split_paired_Ex) blast
  next
    case worse: False
    let ?st' = "st\<lparr>open_set := insert nb (open_set st),
               came_from := AList.update nb cur (came_from st),
               g_score := AList.update nb (gc + 1) (g_score st),
               f_score := AList.update nb (gc + 1 + manhattan nb goal) (f_score st)\<rparr>"
    have run: "relax goal cur nb st = Inr ?st'"
      using False worse cur(2)
      by (simp add: relax_def lookup_def Let_def manhattan_adjacent [OF adj])
    have g': "\<And>n. map_of (g_score ?st') n = (if n = nb then Some (gc + 1) else map_of (g_score st) n)"
      by (simp add: update_conv')
    have keep: "\<forall>n. map_of (g_score st) n = Some (manhattan start n)
                 \<longrightarrow> map_of (g_score ?st') n = Some (manhattan start n)"
    proof (intro allI impI)
      fix n assume t: "map_of (g_score st) n = Some (manhattan start n)"
      show "map_of (g_score ?st') n = Some (manhattan start n)"
      proof (cases "n = nb")
        case True
        with t worse low show ?thesis by simp
      next
        case False
        with t show ?thesis unfolding g' by simp
      qed
    qed
    have "searching dims start goal ?st'"
      using searching_better [OF inv cur adj False nb] .
    moreover have "closed_set ?st' = closed_set st" "open_set st \<subseteq> open_set ?st'"
      "nb \<in> open_set ?st'" by auto
    moreover have "map_of (g_score ?st') cur = Some gc" "map_of (g_score ?st') nb = Some (gc + 1)"
      unfolding g' using neq cur(2) by simp_all
    ultimately show ?thesis using run keep by blast
  qed
qed

section \<open>Relaxing all neighbors\<close>

lemma relax_all_searching:
  assumes "searching dims start goal st"
    and "cur \<in> closed_set st" "map_of (g_score st) cur = Some gc"
    and "\<forall>nb \<in> set ns. adjacent cur nb \<and> in_bounds dims nb"
  shows "\<exists>st'. relax_all goal cur ns st = Inr st'
           \<and> searching dims start goal st'
           \<and> closed_set st' = closed_set st
           \<and> open_set st \<subseteq> open_set st'
           \<and> map_of (g_score st') cur = Some gc
           \<and> (\<forall>n. map_of (g_score st) n = Some (manhattan start n)
                 \<longrightarrow> map_of (g_score st') n = Some (manhattan start n))
           \<and> (\<forall>nb \<in> set ns. nb \<notin> closed_set st \<longrightarrow> nb \<in> open_set st'
               \<and> (gc + 1 = manhattan start nb \<longrightarrow> gc + 1 < 1000
                    \<longrightarrow> map_of (g_score st') nb = Some (gc + 1)))"
  using assms
proof (induction ns arbitrary: st)
  case Nil
  then show ?case by simp
next
  case (Cons nb ns)
  from Cons.prems(4) have adj: "adjacent cur nb" and nb: "in_bounds dims nb"
    and rest: "\<forall>nb \<in> set ns. adjacent cur nb \<and> in_bounds dims nb" by simp_all
  from relax_searching [OF Cons.prems(1-3) adj nb] obtain st1 where
    one: "relax goal cur nb st = Inr st1" "searching dims start goal st1"
      "closed_set st1 = closed_set st" "open_set st \<subseteq> open_set st1"
      "map_of (g_score st1) cur = Some gc"
      "\<forall>n. map_of (g_score st) n = Some (manhattan start n)
                 \<longrightarrow> map_of (g_score st1) n = Some (manhattan start n)"
      "nb \<notin> closed_set st \<longrightarrow> nb \<in> open_set st1
               \<and> (gc + 1 = manhattan start nb \<longrightarrow> gc + 1 < 1000
                    \<longrightarrow> map_of (g_score st1) nb = Some (gc + 1))"
    by blast
  from one(3) Cons.prems(2) have cur1: "cur \<in> closed_set st1" by simp
  from Cons.IH [OF one(2) cur1 one(5) rest] obtain st2 where
    two: "relax_all goal cur ns st1 = Inr st2" "searching dims start goal st2"
      "closed_set st2 = closed_set st1" "open_set st1 \<subseteq> open_set st2"
      "map_of (g_score st2) cur = Some gc"
      "\<forall>n. map_of (g_score st1) n = Some (manhattan start n)
                 \<longrightarrow> map_of (g_score st2) n = Some (manhattan start n)"
      "\<forall>nb \<in> set ns. nb \<notin> closed_set st1 \<longrightarrow> nb \<in> open_set st2
               \<and> (gc + 1 = manhattan start nb \<longrightarrow> gc + 1 < 1000
                    \<longrightarrow> map_of (g_score st2) nb = Some (gc + 1))"
    by blast
  have run: "relax_all goal cur (nb # ns) st = Inr st2"
    using one(1) two(1) by simp
  have a: "closed_set st2 = closed_set st" using one(3) two(3) by simp
  have b: "open_set st \<subseteq> open_set st2" using one(4) two(4) by blast
  have c: "\<forall>n. map_of (g_score st) n = Some (manhattan start n)
                 \<longrightarrow> map_of (g_score st2) n = Some (manhattan start n)"
    using one(6) two(6) by blast
  have d: "\<forall>m \<in> set (nb # ns). m \<notin> closed_set st \<longrightarrow> m \<in> open_set st2
               \<and> (gc + 1 = manhattan start m \<longrightarrow> gc + 1 < 1000
                    \<longrightarrow> map_of (g_score st2) m = Some (gc + 1))"
  proof (intro ballI impI)
    fix m assume m: "m \<in> set (nb # ns)" and open': "m \<notin> closed_set st"
    show "m \<in> open_set st2
               \<and> (gc + 1 = manhattan start m \<longrightarrow> gc + 1 < 1000
                    \<longrightarrow> map_of (g_score st2) m = Some (gc + 1))"
    proof (cases "m = nb")
      case True
      with one(7) open' have "nb \<in> open_set st1"
        and t: "gc + 1 = manhattan start nb \<longrightarrow> gc + 1 < 1000
                    \<longrightarrow> map_of (g_score st1) nb = Some (gc + 1)" by simp_all
      with two(4) have "nb \<in> open_set st2" by blast
      moreover have "gc + 1 = manhattan start nb \<longrightarrow> gc + 1 < 1000
                    \<longrightarrow> map_of (g_score st2) nb = Some (gc + 1)"
        using t two(6) [rule_format, of nb] by auto
      ultimately show ?thesis using True by simp
    next
      case False
      with m have "m \<in> set ns" by simp
      with two(7) open' one(3) show ?thesis by simp
    qed
  qed
  from run two(2) a b two(5) c d show ?case by blast
qed

section \<open>Expanding a node\<close>

lemma manhattan_from_start:
  "d \<in> set (six_candidates (0, 0, 0)) \<Longrightarrow> manhattan s (line_cell s d j) = int j"
  using manhattan_line [of d s 0 j] by simp

lemma searching_closed:
  assumes inv: "searching dims start goal st" and c: "c \<in> open_set st"
  shows "searching dims start goal
           (st\<lparr>open_set := open_set st - {c}, closed_set := insert c (closed_set st)\<rparr>)"
  using inv c unfolding searching_def
  by (simp del: split_paired_All split_paired_Ex) blast

lemma expand_line:
  assumes ng: "numbered_gates b" and sh: "shaped (dimensions b) (h ! board b)"
    and line: "straight_line h b start d len" and short: "len < 1000"
    and inv: "searching (dimensions b) start (line_cell start d len) st"
    and ol: "on_line start d len st"
    and sel: "select_current st = Inr c" and more: "c \<noteq> line_cell start d len"
  shows "\<exists>st'. expand h b (line_cell start d len) c st = Inr st'
           \<and> searching (dimensions b) start (line_cell start d len) st'
           \<and> on_line start d len st'
           \<and> closed_set st' = insert c (closed_set st)
           \<and> c \<notin> closed_set st \<and> in_bounds (dimensions b) c"
proof -
  let ?goal = "line_cell start d len"
  let ?dims = "dimensions b"
  note D = searchingD [OF inv]
  from line have unit: "d \<in> set (six_candidates (0, 0, 0))"
    and vac: "\<And>i. 1 \<le> i \<Longrightarrow> i \<le> len \<Longrightarrow> vacant ?dims (h ! board b) (line_cell start d i)"
    by (simp_all add: straight_line_def)
  from ol obtain k where k: "k \<le> len" "line_cell start d k \<in> open_set st"
    "map_of (g_score st) (line_cell start d k) = Some (int k)"
    "\<And>j. k \<le> j \<Longrightarrow> j \<le> len \<Longrightarrow> line_cell start d j \<notin> closed_set st"
    unfolding on_line_def by blast
  have fk: "map_of (f_score st) (line_cell start d k) = Some (int len)"
    using k(1,3) by (simp add: D(2) manhattan_line [OF unit])
  from select_current_min [OF D(1) k(2) fk] sel obtain v where
    c: "c \<in> open_set st" "map_of (f_score st) c = Some v" "v \<le> int len"
    by auto
  from c(2) obtain gc where gc: "map_of (g_score st) c = Some gc" "v = gc + manhattan c ?goal"
    by (auto simp: D(2))
  have "int len \<le> manhattan start c + manhattan c ?goal"
    using manhattan_triangle [of start ?goal c] manhattan_from_start [OF unit, of start len]
    by simp
  with D(3) [OF gc(1)] gc(2) c(3) have tight: "gc = manhattan start c"
    and sum: "manhattan start c + manhattan c ?goal = int len"
    by simp_all
  from c(1) D(7) have fresh: "c \<notin> closed_set st" by auto
  from c(1) have inside: "in_bounds ?dims c" by (rule D(8))
  let ?st0 = "st\<lparr>open_set := open_set st - {c}, closed_set := insert c (closed_set st)\<rparr>"
  have inv0: "searching ?dims start ?goal ?st0"
    using inv c(1) by (rule searching_closed)
  from node_neighbors_vacant [OF ng sh inside] obtain ns where
    ns: "node_neighbors h b c = Inr ns"
        "set ns = {m \<in> set (six_candidates c). vacant ?dims (h ! board b) m}"
    by blast
  have nbs: "\<forall>nb \<in> set ns. adjacent c nb \<and> in_bounds ?dims nb"
    unfolding ns(2) by (simp add: six_candidates_adjacent vacant_def)
  have c0: "c \<in> closed_set ?st0" "map_of (g_score ?st0) c = Some gc"
    using gc(1) by simp_all
  from relax_all_searching [OF inv0 c0 nbs] obtain st' where
    st': "relax_all ?goal c ns ?st0 = Inr st'" "searching ?dims start ?goal st'"
      "closed_set st' = closed_set ?st0" "open_set ?st0 \<subseteq> open_set st'"
      "\<forall>n. map_of (g_score ?st0) n = Some (manhattan start n)
                 \<longrightarrow> map_of (g_score st') n = Some (manhattan start n)"
      "\<forall>nb \<in> set ns. nb \<notin> closed_set ?st0 \<longrightarrow> nb \<in> open_set st'
               \<and> (gc + 1 = manhattan start nb \<longrightarrow> gc + 1 < 1000
                    \<longrightarrow> map_of (g_score st') nb = Some (gc + 1))"
    by blast
  have run: "expand h b ?goal c st = Inr st'"
    using ns(1) st'(1) by (simp add: expand_def)
  have closed': "closed_set st' = insert c (closed_set st)"
    using st'(3) by simp
  have "on_line start d len st'"
  proof (cases "\<exists>j. k \<le> j \<and> j \<le> len \<and> c = line_cell start d j")
    case True
    then obtain j where j: "k \<le> j" "j \<le> len" "c = line_cell start d j" by blast
    from j(3) more have "j \<noteq> len" by auto
    with j(2) have next_in: "Suc j \<le> len" by simp
    let ?m = "line_cell start d (Suc j)"
    have gcj: "gc = int j" using tight j(3) manhattan_from_start [OF unit] by simp
    have "vacant ?dims (h ! board b) ?m" using next_in by (intro vac) simp_all
    moreover have "adjacent c ?m" unfolding j(3) using unit by (rule line_cell_adjacent)
    ultimately have mem: "?m \<in> set ns"
      unfolding ns(2) by (simp add: six_candidates_adjacent)
    have "?m \<noteq> c" unfolding j(3) by (simp add: line_cell_inj [OF unit])
    moreover have "?m \<notin> closed_set st" using j(1) next_in by (intro k(4)) simp_all
    ultimately have "?m \<notin> closed_set ?st0" by simp
    with st'(6) [rule_format, OF mem] have "?m \<in> open_set st'"
      and "gc + 1 = manhattan start ?m \<longrightarrow> gc + 1 < 1000
                    \<longrightarrow> map_of (g_score st') ?m = Some (gc + 1)"
      by simp_all
    with gcj next_in short manhattan_from_start [OF unit, of start "Suc j"]
    have a: "?m \<in> open_set st'" and b: "map_of (g_score st') ?m = Some (int (Suc j))"
      by simp_all
    have "\<forall>i. Suc j \<le> i \<and> i \<le> len \<longrightarrow> line_cell start d i \<notin> closed_set st'"
    proof (intro allI impI)
      fix i assume i: "Suc j \<le> i \<and> i \<le> len"
      with j(1) have "line_cell start d i \<notin> closed_set st" by (intro k(4)) simp_all
      moreover from i have "line_cell start d i \<noteq> c"
        unfolding j(3) by (simp add: line_cell_inj [OF unit])
      ultimately show "line_cell start d i \<notin> closed_set st'" unfolding closed' by simp
    qed
    with next_in a b show ?thesis unfolding on_line_def by blast
  next
    case False
    then have other: "\<And>j. k \<le> j \<Longrightarrow> j \<le> len \<Longrightarrow> c \<noteq> line_cell start d j" by blast
    from other [of k] k(1) have "line_cell start d k \<noteq> c" by auto
    with k(2) st'(4) have a: "line_cell start d k \<in> open_set st'" by auto
    have "map_of (g_score ?st0) (line_cell start d k) = Some (manhattan start (line_cell start d k))"
      using k(3) manhattan_from_start [OF unit, of start k] by simp
    with st'(5) have "map_of (g_score st') (line_cell start d k)
        = Some (manhattan start (line_cell start d k))" by blast
    then have b: "map_of (g_score st') (line_cell start d k) = Some (int k)"
      using manhattan_from_start [OF unit, of start k] by simp
    have "\<forall>i. k \<le> i \<and> i \<le> len \<longrightarrow> line_cell start d i \<notin> closed_set st'"
    proof (intro allI impI)
      fix i assume i: "k \<le> i \<and> i \<le> len"
      then have "line_cell start d i \<notin> closed_set st" by (intro k(4)) simp_all
      moreover from i other [of i] have "line_cell start d i \<noteq> c" by auto
      ultimately show "line_cell start d i \<notin> closed_set st'" unfolding closed' by simp
    qed
    with k(1) a b show ?thesis unfolding on_line_def by blast
  qed
  with run st'(2) closed' fresh inside show ?thesis by blast
qed

section \<open>The length of the reconstructed path\<close>

lemma reconstruct_loop_length:
  assumes chain: "\<And>n p. map_of cf n = Some p \<Longrightarrow>
             \<exists>g. map_of gs p = Some g \<and> map_of gs n = Some (g + 1)"
    and zero: "\<And>n g. map_of gs n = Some g \<Longrightarrow> map_of cf n = None \<Longrightarrow> g = 0"
    and low: "\<And>n g. map_of gs n = Some g \<Longrightarrow> (0::int) \<le> g"
    and at: "map_of gs n = Some g"
  shows "\<exists>r. reconstruct_loop cf n tp = Some r \<and> int (length r) = int (length tp) + g"
  using at
proof (induction "nat g" arbitrary: n g tp)
  case 0
  with low [OF "0.prems"] have g0: "g = 0" by simp
  have "map_of cf n = None"
  proof (cases "map_of cf n")
    case None
    then show ?thesis .
  next
    case (Some p)
    from chain [OF Some] "0.prems" g0 obtain gp where "map_of gs p = Some gp" "gp + 1 = 0"
      by auto
    with low [of p gp] show ?thesis by simp
  qed
  then show ?case using g0 by (subst reconstruct_loop.simps) simp
next
  case (Suc k)
  then have pos: "g \<noteq> 0" by auto
  with zero [OF Suc.prems] obtain p where p: "map_of cf n = Some p"
    by (cases "map_of cf n") auto
  from chain [OF p] Suc.prems obtain gp where gp: "map_of gs p = Some gp" "g = gp + 1"
    by auto
  from Suc.hyps(2) gp(2) low [OF gp(1)] have "k = nat gp" by simp
  from Suc.hyps(1) [OF this gp(1), of "tp @ [p]"] obtain r where
    "reconstruct_loop cf p (tp @ [p]) = Some r" "int (length r) = int (length (tp @ [p])) + gp"
    by blast
  then show ?case using p gp(2) by (subst reconstruct_loop.simps) simp
qed

lemma reconstruct_path_length:
  assumes inv: "searching dims start goal st" and at: "map_of (g_score st) n = Some g"
  shows "\<exists>p. reconstruct_path (came_from st) n = Some p \<and> int (length p) = g + 1"
proof -
  note D = searchingD [OF inv]
  have low: "\<And>n g. map_of (g_score st) n = Some g \<Longrightarrow> 0 \<le> g"
    using D(3) manhattan_nonneg [of start] by (meson order_trans)
  have "\<exists>r. reconstruct_loop (came_from st) n [n] = Some r
          \<and> int (length r) = int (length [n]) + g"
    using D(5) D(6) low at by (rule reconstruct_loop_length)
  then show ?thesis by (simp add: reconstruct_path_def add.commute)
qed

section \<open>The search along a straight line of fewer than 1000 steps\<close>

lemma search_loop_line:
  assumes ng: "numbered_gates b" and sh: "shaped (dimensions b) (h ! board b)"
    and line: "straight_line h b start d len" and short: "len < 1000"
    and inv: "searching (dimensions b) start (line_cell start d len) st"
    and ol: "on_line start d len st"
  shows "\<exists>p. search_loop h b (line_cell start d len) st = Some (Inr (Path p))
            \<and> length p = Suc len"
  using inv ol
proof (induction "card ({n. in_bounds (dimensions b) n} - closed_set st)"
         arbitrary: st rule: less_induct)
  case less
  let ?goal = "line_cell start d len"
  note D = searchingD [OF less.prems(1)]
  from line have unit: "d \<in> set (six_candidates (0, 0, 0))" by (simp add: straight_line_def)
  from less.prems(2) obtain k where k: "k \<le> len" "line_cell start d k \<in> open_set st"
    "map_of (g_score st) (line_cell start d k) = Some (int k)"
    unfolding on_line_def by blast
  have fk: "map_of (f_score st) (line_cell start d k) = Some (int len)"
    using k(1,3) by (simp add: D(2) manhattan_line [OF unit])
  from select_current_min [OF D(1) k(2) fk] obtain c v where
    c: "select_current st = Inr c" "c \<in> open_set st" "map_of (f_score st) c = Some v"
       "v \<le> int len"
    by blast
  from k(2) have nonempty: "open_set st \<noteq> {}" by auto
  show ?case
  proof (cases "c = ?goal")
    case True
    from c(3) obtain gc where gc: "map_of (g_score st) c = Some gc" "v = gc + manhattan c ?goal"
      by (auto simp: D(2))
    from D(3) [OF gc(1)] True manhattan_from_start [OF unit, of start len] gc(2) c(4)
    have "gc = int len" by simp
    with reconstruct_path_length [OF less.prems(1) gc(1)] obtain p where
      p: "reconstruct_path (came_from st) c = Some p" "length p = Suc len"
      by auto
    have "search_loop h b ?goal st = Some (Inr (Path p))"
      using nonempty c(1) True p(1) by (subst search_loop.simps) simp
    with p(2) show ?thesis by blast
  next
    case False
    from expand_line [OF ng sh line short less.prems(1,2) c(1) False] obtain st' where
      st': "expand h b ?goal c st = Inr st'"
        "searching (dimensions b) start ?goal st'" "on_line start d len st'"
        "closed_set st' = insert c (closed_set st)" "c \<notin> closed_set st"
        "in_bounds (dimensions b) c"
      by blast
    have "{n. in_bounds (dimensions b) n} - closed_set st'
            \<subset> {n. in_bounds (dimensions b) n} - closed_set st"
      using st'(4,5,6) by auto
    then have "card ({n. in_bounds (dimensions b) n} - closed_set st')
             < card ({n. in_bounds (dimensions b) n} - closed_set st)"
      by (intro psubset_card_mono finite_Diff finite_in_bounds)
    from less.hyps [OF this st'(2,3)] obtain p where
      p: "search_loop h b ?goal st' = Some (Inr (Path p))" "length p = Suc len"
      by blast
    have "search_loop h b ?goal st = search_loop h b ?goal st'"
      using nonempty c(1) False st'(1) by (subst search_loop.simps) simp
    with p show ?thesis by simp
  qed
qed

lemma searching_initial:
  assumes "in_bounds dims start"
  shows "searching dims start goal (initial_state start goal)"
  using assms unfolding searching_def initial_state_def
  by (simp del: split_paired_All split_paired_Ex)

lemma on_line_initial: "on_line start d len (initial_state start goal)"
  unfolding on_line_def initial_state_def
  by (intro exI [of _ 0]) simp

text \<open>
  Start and goal are joined by a straight line of at most 999 steps, the start is inside
  the board and all cells of the line after the start hold \<^verbatim>\<open>'__'\<close>; the gates of the
  board are named by numbers and its array has the shape of its dimensions. Then
  \<^verbatim>\<open>search\<close> returns a path, and the path has as many steps as the Manhattan distance
  of the two nodes. The default of 1000 does not come into play: every g-score on the
  line is below it.
\<close>

lemma straight_line_below_1000_steps:
  assumes "numbered_gates b" and "shaped (dimensions b) (h ! board b)"
    and "straight_line h b start d len" and "len < 1000"
  shows "\<exists>p. search start (line_cell start d len) h b = Some (Inr (Path p))
            \<and> int (length p) - 1 = manhattan start (line_cell start d len)"
proof -
  from assms(3) have unit: "d \<in> set (six_candidates (0, 0, 0))"
    and inside: "in_bounds (dimensions b) start"
    by (simp_all add: straight_line_def)
  from search_loop_line [OF assms searching_initial [OF inside] on_line_initial]
  obtain p where "search start (line_cell start d len) h b = Some (Inr (Path p))"
    "length p = Suc len"
    unfolding search_def by blast
  then show ?thesis using manhattan_from_start [OF unit, of start len] by simp
qed

text \<open>
  On the board of 1000 empty cells in a row the first and the last cell are 999 steps
  apart, and the search from the one to the other returns a path of 999 steps.
\<close>

lemma straight_line_of_999_steps_found:
  "\<exists>p. search (0, 0, 0) (0, 0, 999) (fst (corridor 1000)) (snd (corridor 1000))
          = Some (Inr (Path p))
       \<and> int (length p) - 1 = 999"
proof -
  have numbered: "numbered_gates (snd (corridor 1000))"
    by (simp add: numbered_gates_def corridor_def)
  have shape: "shaped (dimensions (snd (corridor 1000)))
                 (fst (corridor 1000) ! board (snd (corridor 1000)))"
    by (simp add: shaped_def corridor_def)
  have cells: "vacant (1, 1, 1000) [[replicate 1000 ''__'']] (line_cell (0, 0, 0) (0, 0, 1) i)"
    if "i \<le> 999" for i
    using that cell_corridor [of i 1000] by (simp add: vacant_def in_bounds_def line_cell_def)
  have line: "straight_line (fst (corridor 1000)) (snd (corridor 1000)) (0, 0, 0) (0, 0, 1) 999"
    using cells by (simp add: straight_line_def corridor_def six_candidates_def in_bounds_def)
  have "line_cell (0, 0, 0) (0, 0, 1) 999 = (0, 0, 999)" "manhattan (0, 0, 0) (0, 0, 999) = 999"
    by (simp_all add: line_cell_def manhattan_def)
  with straight_line_below_1000_steps [OF numbered shape line] show ?thesis by simp
qed

end
